theory Spec2Isabelle
  imports
    Main
    "HOL-Library.Char_ord"
    "HOL-Library.List_Lexorder"
    "HOL-Library.Multiset"
begin

text \<open>
  The ADIF log parser, its queries and the reloadable parser of the QSL log site
  (\<open>utils/adif.go\<close>, \<open>cmd/web.go\<close>), as functions of HOL, with the functions of the Go
  library they call, and the properties of the specification proved or refuted on them.
\<close>

section \<open>Go strings\<close>

text \<open>
  A Go string is a sequence of bytes; \<^typ>\<open>string\<close> (a list of 8-bit characters) is
  used for it, and \<open>len(s)\<close> is \<^const>\<open>length\<close>. The order on strings (Go's \<open><\<close>,
  \<open>>\<close>) is the lexicographic order on bytes.
\<close>

definition byte :: "char \<Rightarrow> nat" where
  "byte c = of_char c"

text \<open>A call returns a value or panics.\<close>

datatype 'a run = Returns 'a | Panics

text \<open>The error values of the program: the errors of \<open>io.ReadAll\<close> and \<open>os.Open\<close>
  (\<open>ErrIO\<close>), of \<open>strconv.Atoi\<close> (\<open>ErrNum\<close>), the two errors made with \<open>fmt.Errorf\<close>
  in \<open>parseTimestamp\<close> and \<open>parseRecord\<close>, and the three that wrap another error.\<close>

datatype error =
    ErrIO
  | ErrNum
  | ErrInvalidDateTimeFormat
  | ErrMissingRequiredFields
  | ErrFailedToRead error
  | ErrFailedToOpen error
  | ErrFailedToParse error

subsection \<open>Package unicode/utf8\<close>

definition RuneError :: nat where
  "RuneError = 0xFFFD"

text \<open>\<open>utf8.DecodeRuneInString\<close>: the first rune of the string and its width in bytes;
  an invalid or short encoding is \<open>(RuneError, 1)\<close>.\<close>

fun DecodeRuneInString :: "string \<Rightarrow> nat \<times> nat" where
  "DecodeRuneInString [] = (RuneError, 0)"
| "DecodeRuneInString (c0 # s) =
    (let b0 = byte c0 in
     if b0 < 0x80 then (b0, 1)
     else if b0 < 0xC2 \<or> 0xF4 < b0 then (RuneError, 1)
     else
       let sz = (if b0 < 0xE0 then 2 else if b0 < 0xF0 then 3 else (4::nat));
           lo = (if b0 = 0xE0 then 0xA0 else if b0 = 0xF0 then 0x90 else 0x80);
           hi = (if b0 = 0xED then 0x9F else if b0 = 0xF4 then 0x8F else 0xBF)
       in
       if length s + 1 < sz then (RuneError, 1)
       else
         let b1 = byte (s ! 0) in
         if b1 < lo \<or> hi < b1 then (RuneError, 1)
         else if sz = 2 then ((b0 mod 32) * 64 + b1 mod 64, 2)
         else
           let b2 = byte (s ! 1) in
           if b2 < 0x80 \<or> 0xBF < b2 then (RuneError, 1)
           else if sz = 3 then ((b0 mod 16) * 4096 + (b1 mod 64) * 64 + b2 mod 64, 3)
           else
             let b3 = byte (s ! 2) in
             if b3 < 0x80 \<or> 0xBF < b3 then (RuneError, 1)
             else ((b0 mod 8) * 262144 + (b1 mod 64) * 4096 + (b2 mod 64) * 64
                     + b3 mod 64, 4))"

text \<open>\<open>utf8.AppendRune\<close>: surrogates and values beyond \<open>U+10FFFF\<close> are written as
  \<open>RuneError\<close>.\<close>

definition EncodeRune :: "nat \<Rightarrow> string" where
  "EncodeRune r =
    (if r < 0x80 then [char_of r]
     else if r < 0x800 then [char_of (0xC0 + r div 64), char_of (0x80 + r mod 64)]
     else if 0x10FFFF < r \<or> (0xD800 \<le> r \<and> r \<le> 0xDFFF) then [CHR 0xEF, CHR 0xBF, CHR 0xBD]
     else if r < 0x10000 then
       [char_of (0xE0 + r div 4096), char_of (0x80 + (r div 64) mod 64),
        char_of (0x80 + r mod 64)]
     else
       [char_of (0xF0 + r div 262144), char_of (0x80 + (r div 4096) mod 64),
        char_of (0x80 + (r div 64) mod 64), char_of (0x80 + r mod 64)])"

text \<open>The runes a \<open>for _, c := range s\<close> loop visits.\<close>

function runes :: "string \<Rightarrow> nat list" where
  "runes [] = []"
| "runes (c # s) =
    fst (DecodeRuneInString (c # s)) # runes (drop (snd (DecodeRuneInString (c # s)) - 1) s)"
  by pat_completeness auto
termination
  by (relation "measure length") auto


subsection \<open>Package unicode\<close>

text \<open>
  The case mapping of the ASCII letters is code in \<open>unicode.ToUpper\<close> and
  \<open>unicode.ToLower\<close>; beyond ASCII both consult the table \<open>unicode.CaseRanges\<close>, which is
  data of the Go distribution. The table is a parameter of the model: \<open>cr UpperCase r\<close> and
  \<open>cr LowerCase r\<close> are the runes it maps \<open>r\<close> to.
\<close>

datatype ucase = UpperCase | LowerCase

type_synonym CaseRanges = "ucase \<Rightarrow> nat \<Rightarrow> nat"

definition unicode_ToUpper :: "CaseRanges \<Rightarrow> nat \<Rightarrow> nat" where
  "unicode_ToUpper cr r =
    (if r \<le> 0x7F then (if 0x61 \<le> r \<and> r \<le> 0x7A then r - 0x20 else r)
     else cr UpperCase r)"

definition unicode_ToLower :: "CaseRanges \<Rightarrow> nat \<Rightarrow> nat" where
  "unicode_ToLower cr r =
    (if r \<le> 0x7F then (if 0x41 \<le> r \<and> r \<le> 0x5A then r + 0x20 else r)
     else cr LowerCase r)"

text \<open>A table without entries: every rune beyond ASCII is its own upper and lower case.
  It is used where a concrete text is evaluated.\<close>

definition no_case_ranges :: CaseRanges where
  "no_case_ranges c r = r"

subsection \<open>Package strings\<close>

text \<open>The ASCII letters are mapped byte by byte (\<open>c -= 'a' - 'A'\<close> and
  \<open>c += 'a' - 'A'\<close>).\<close>

definition upper_byte :: "char \<Rightarrow> char" where
  "upper_byte c =
    (case map_of (zip ''abcdefghijklmnopqrstuvwxyz'' ''ABCDEFGHIJKLMNOPQRSTUVWXYZ'') c of
       None \<Rightarrow> c | Some u \<Rightarrow> u)"

definition lower_byte :: "char \<Rightarrow> char" where
  "lower_byte c =
    (case map_of (zip ''ABCDEFGHIJKLMNOPQRSTUVWXYZ'' ''abcdefghijklmnopqrstuvwxyz'') c of
       None \<Rightarrow> c | Some l \<Rightarrow> l)"

definition isASCII :: "string \<Rightarrow> bool" where
  "isASCII s = list_all (\<lambda>c. byte c < 0x80) s"

text \<open>\<open>strings.Map\<close> decodes the string rune by rune and writes the encoding of each
  mapped rune; a byte that is not part of a valid encoding is read as \<open>RuneError\<close> and so
  written as the three bytes of \<open>U+FFFD\<close>. The result can be longer or shorter than the
  argument.\<close>

definition Map :: "(nat \<Rightarrow> nat) \<Rightarrow> string \<Rightarrow> string" where
  "Map mapping s = concat (map (\<lambda>c. EncodeRune (mapping c)) (runes s))"

definition ToUpper :: "CaseRanges \<Rightarrow> string \<Rightarrow> string" where
  "ToUpper cr s = (if isASCII s then map upper_byte s else Map (unicode_ToUpper cr) s)"

definition ToLower :: "CaseRanges \<Rightarrow> string \<Rightarrow> string" where
  "ToLower cr s = (if isASCII s then map lower_byte s else Map (unicode_ToLower cr) s)"

text \<open>\<open>strings.Index\<close>: the position of the first occurrence, or \<open>-1\<close>.\<close>

fun Index :: "string \<Rightarrow> string \<Rightarrow> int" where
  "Index [] substr = (if substr = [] then 0 else - 1)"
| "Index (c # s) substr =
    (if take (length substr) (c # s) = substr then 0
     else (let i = Index s substr in if i = - 1 then - 1 else i + 1))"

text \<open>\<open>strings.TrimSpace\<close> removes the leading and the trailing white-space runes
  (\<open>unicode.IsSpace\<close>): \<open>U+0009\<close> to \<open>U+000D\<close>, \<open>U+0020\<close>, \<open>U+0085\<close>, \<open>U+00A0\<close>,
  \<open>U+1680\<close>, \<open>U+2000\<close> to \<open>U+200A\<close>, \<open>U+2028\<close>, \<open>U+2029\<close>, \<open>U+202F\<close>, \<open>U+205F\<close> and
  \<open>U+3000\<close>. A string starts (ends) with a white-space rune exactly when it starts (ends)
  with the UTF-8 encoding of one; \<open>space_encodings\<close> lists these encodings.\<close>

definition space_encodings :: "string list" where
  "space_encodings =
     [[CHR 0x09], [CHR 0x0A], [CHR 0x0B], [CHR 0x0C], [CHR 0x0D], [CHR 0x20],
      [CHR 0xC2, CHR 0x85], [CHR 0xC2, CHR 0xA0], [CHR 0xE1, CHR 0x9A, CHR 0x80],
      [CHR 0xE2, CHR 0x80, CHR 0x80], [CHR 0xE2, CHR 0x80, CHR 0x81],
      [CHR 0xE2, CHR 0x80, CHR 0x82], [CHR 0xE2, CHR 0x80, CHR 0x83],
      [CHR 0xE2, CHR 0x80, CHR 0x84], [CHR 0xE2, CHR 0x80, CHR 0x85],
      [CHR 0xE2, CHR 0x80, CHR 0x86], [CHR 0xE2, CHR 0x80, CHR 0x87],
      [CHR 0xE2, CHR 0x80, CHR 0x88], [CHR 0xE2, CHR 0x80, CHR 0x89],
      [CHR 0xE2, CHR 0x80, CHR 0x8A], [CHR 0xE2, CHR 0x80, CHR 0xA8],
      [CHR 0xE2, CHR 0x80, CHR 0xA9], [CHR 0xE2, CHR 0x80, CHR 0xAF],
      [CHR 0xE2, CHR 0x81, CHR 0x9F], [CHR 0xE3, CHR 0x80, CHR 0x80]]"

definition leading_space :: "string list \<Rightarrow> string \<Rightarrow> nat" where
  "leading_space encs s =
    (case filter (\<lambda>e. take (length e) s = e) encs of [] \<Rightarrow> 0 | e # _ \<Rightarrow> length e)"

function TrimLeft_enc :: "string list \<Rightarrow> string \<Rightarrow> string" where
  "TrimLeft_enc encs [] = []"
| "TrimLeft_enc encs (c # s) =
    (if leading_space encs (c # s) = 0 then c # s
     else TrimLeft_enc encs (drop (leading_space encs (c # s) - 1) s))"
  by pat_completeness auto
termination
  by (relation "measure (\<lambda>(encs, s). length s)") auto

definition TrimLeft :: "string \<Rightarrow> string" where
  "TrimLeft s = TrimLeft_enc space_encodings s"

definition TrimRight :: "string \<Rightarrow> string" where
  "TrimRight s = rev (TrimLeft_enc (map rev space_encodings) (rev s))"

definition TrimSpace :: "string \<Rightarrow> string" where
  "TrimSpace s = TrimRight (TrimLeft s)"

subsection \<open>Package strconv\<close>

definition is_digit :: "char \<Rightarrow> bool" where
  "is_digit c \<longleftrightarrow> CHR ''0'' \<le> c \<and> c \<le> CHR ''9''"

definition digits_value :: "string \<Rightarrow> int" where
  "digits_value s = foldl (\<lambda>n c. n * 10 + int (byte c - 0x30)) 0 s"

text \<open>\<open>strconv.Atoi\<close> on a 64-bit platform: an optional sign, then one or more decimal
  digits; a value outside \<open>int\<close> is an error as well. Both errors are a
  \<open>*strconv.NumError\<close>; the program never tells them apart.\<close>

definition Atoi :: "string \<Rightarrow> error + int" where
  "Atoi s0 =
    (let neg = (s0 \<noteq> [] \<and> hd s0 = CHR ''-'');
         s = (if s0 \<noteq> [] \<and> (hd s0 = CHR ''-'' \<or> hd s0 = CHR ''+'') then tl s0 else s0)
     in
     if s = [] \<or> \<not> list_all is_digit s then Inl ErrNum
     else if neg then
       (if 2 ^ 63 < digits_value s then Inl ErrNum else Inr (- digits_value s))
     else
       (if 2 ^ 63 \<le> digits_value s then Inl ErrNum else Inr (digits_value s)))"

section \<open>Package time\<close>

text \<open>
  A \<open>time.Time\<close> is an instant with nanosecond precision; it is modelled by the number of
  nanoseconds since January 1, year 1, 00:00:00 UTC, which is the zero \<open>Time\<close>. The
  location of a \<open>Time\<close> plays no role in \<open>IsZero\<close>, \<open>Before\<close> and \<open>Sub\<close>. A
  \<open>time.Duration\<close> is a signed 64-bit count of nanoseconds.
\<close>

type_synonym Time = int

type_synonym Duration = int

definition zero_Time :: Time where
  "zero_Time = 0"

definition IsZero :: "Time \<Rightarrow> bool" where
  "IsZero t \<longleftrightarrow> t = 0"

definition Before :: "Time \<Rightarrow> Time \<Rightarrow> bool" where
  "Before t u \<longleftrightarrow> t < u"

definition minDuration :: Duration where
  "minDuration = - (2 ^ 63)"

definition maxDuration :: Duration where
  "maxDuration = 2 ^ 63 - 1"

definition Minute :: Duration where
  "Minute = 60000000000"

text \<open>Arithmetic on \<open>int64\<close> wraps around.\<close>

definition wrap64 :: "int \<Rightarrow> int" where
  "wrap64 x = (x + 2 ^ 63) mod 2 ^ 64 - 2 ^ 63"

text \<open>\<open>Time.Sub\<close>: the difference, or the minimum (maximum) duration when the difference
  does not fit a \<open>Duration\<close>.\<close>

definition Sub :: "Time \<Rightarrow> Time \<Rightarrow> Duration" where
  "Sub t u =
    (if t - u < minDuration then minDuration
     else if maxDuration < t - u then maxDuration
     else t - u)"

text \<open>\<open>time.Unix(sec, 0)\<close>: the Unix epoch is 62135596800 seconds after the zero
  \<open>Time\<close>.\<close>

definition Unix :: "int \<Rightarrow> Time" where
  "Unix sec = (sec + 62135596800) * 1000000000"

text \<open>\<open>time.Date\<close> with zero nanoseconds in UTC. Values outside their usual ranges are
  normalised: \<open>norm\<close> carries them into the next higher unit. The parser passes numbers
  read from at most four characters, far from any overflow of the arithmetic of
  \<open>time.Date\<close>; the model computes in unbounded integers.\<close>

definition norm :: "int \<Rightarrow> int \<Rightarrow> int \<Rightarrow> int \<times> int" where
  "norm hi lo base = (hi + lo div base, lo mod base)"

definition isLeap :: "int \<Rightarrow> bool" where
  "isLeap year \<longleftrightarrow> year mod 4 = 0 \<and> (year mod 100 \<noteq> 0 \<or> year mod 400 = 0)"

definition daysBefore :: "int list" where
  "daysBefore = [0, 31, 59, 90, 120, 151, 181, 212, 243, 273, 304, 334]"

text \<open>The days from January 1, year 1 to January 1 of the year, in the proleptic
  Gregorian calendar.\<close>

definition days_before_year :: "int \<Rightarrow> int" where
  "days_before_year year =
     365 * (year - 1) + (year - 1) div 4 - (year - 1) div 100 + (year - 1) div 400"

definition Date :: "int \<Rightarrow> int \<Rightarrow> int \<Rightarrow> int \<Rightarrow> int \<Rightarrow> int \<Rightarrow> Time" where
  "Date year month day hour minute sec =
    (let (year', m) = norm year (month - 1) 12;
         (min', sec') = norm minute sec 60;
         (hour', min'') = norm hour min' 60;
         (day', hour'') = norm day hour' 24;
         d = days_before_year year' + daysBefore ! nat m
               + (if isLeap year' \<and> 2 \<le> m then 1 else 0) + (day' - 1)
     in (d * 86400 + hour'' * 3600 + min'' * 60 + sec') * 1000000000)"

section \<open>Package regexp: the two expressions of the parser\<close>

text \<open>
  The expressions are matched leftmost-first, and \<open>FindAll\<close> and \<open>Split\<close> take the
  successive non-overlapping matches. Every byte the two expressions name is ASCII, so
  matching by bytes and matching by runes agree.

  \<open>(?i)<eor>\<close> matches the five bytes \<open><eor>\<close> in any case of the letters.
\<close>

definition eor_at :: "string \<Rightarrow> bool" where
  "eor_at s \<longleftrightarrow> map lower_byte (take 5 s) = ''<eor>''"

text \<open>\<open>regexp.MustCompile(`(?i)<eor>`).Split(content, -1)\<close>: the pieces between the
  matches, the piece after the last match included (also when it is empty).\<close>

function Split_pieces :: "string \<Rightarrow> string \<Rightarrow> string list" where
  "Split_pieces piece [] = [piece]"
| "Split_pieces piece (c # s) =
    (if eor_at (c # s) then piece # Split_pieces [] (drop 4 s)
     else Split_pieces (piece @ [c]) s)"
  by pat_completeness auto
termination
  by (relation "measure (\<lambda>(piece, s). length s)") auto

definition Split_eor :: "string \<Rightarrow> string list" where
  "Split_eor content = Split_pieces [] content"

text \<open>
  \<open><([^:>]+):(\d+)>([^<]*)\<close> at the start of a string. Each repetition is greedy and is
  followed by a byte outside its class (or by nothing), so a match takes the longest run
  of each class. The result is the three submatches and the width of the match.
\<close>

definition is_name_byte :: "char \<Rightarrow> bool" where
  "is_name_byte c \<longleftrightarrow> c \<noteq> CHR '':'' \<and> c \<noteq> CHR ''>''"

definition is_data_byte :: "char \<Rightarrow> bool" where
  "is_data_byte c \<longleftrightarrow> c \<noteq> CHR ''<''"

definition match_field :: "string \<Rightarrow> ((string \<times> string \<times> string) \<times> nat) option" where
  "match_field s =
    (case s of
       [] \<Rightarrow> None
     | c # r \<Rightarrow>
        if c \<noteq> CHR ''<'' then None
        else
          let name = takeWhile is_name_byte r; r1 = dropWhile is_name_byte r in
          if name = [] then None
          else
            (case r1 of
               [] \<Rightarrow> None
             | c1 # r2 \<Rightarrow>
                if c1 \<noteq> CHR '':'' then None
                else
                  let digits = takeWhile is_digit r2; r3 = dropWhile is_digit r2 in
                  if digits = [] then None
                  else
                    (case r3 of
                       [] \<Rightarrow> None
                     | c3 # r4 \<Rightarrow>
                        if c3 \<noteq> CHR ''>'' then None
                        else
                          let data = takeWhile is_data_byte r4 in
                          Some ((name, digits, data),
                                length name + length digits + length data + 3))))"

text \<open>\<open>fieldRegex.FindAllStringSubmatch(record, -1)\<close>: the search goes on where the
  last match ended.\<close>

function FindAllStringSubmatch :: "string \<Rightarrow> (string \<times> string \<times> string) list" where
  "FindAllStringSubmatch [] = []"
| "FindAllStringSubmatch (c # s) =
    (case match_field (c # s) of
       None \<Rightarrow> FindAllStringSubmatch s
     | Some (m, width) \<Rightarrow> m # FindAllStringSubmatch (drop (width - 1) s))"
  by pat_completeness auto
termination
  by (relation "measure length") auto

section \<open>The ADIF parser (\<open>utils/adif.go\<close>)\<close>

type_synonym QslStatus = string

definition QslYes :: QslStatus where
  "QslYes = ''Y''"

record QSO =
  Call :: string
  QSODate :: string
  TimeOn :: string
  QSODateOff :: string
  TimeOff :: string
  Band :: string
  Mode :: string
  Freq :: string
  RSTSent :: string
  RSTRcvd :: string
  QTH :: string
  Name :: string
  Comment :: string
  GridSquare :: string
  Country :: string
  DXCC :: string
  MyGridSquare :: string
  StationCall :: string
  MyRig :: string
  MyAntenna :: string
  TxPwr :: string
  QslSent :: QslStatus
  QslRcvd :: QslStatus
  LotwSent :: QslStatus
  LotwRcvd :: QslStatus
  EqslSent :: QslStatus
  EqslRcvd :: QslStatus
  Timestamp :: Time

text \<open>The zero value \<open>QSO{}\<close>.\<close>

definition zero_QSO :: QSO where
  "zero_QSO =
    \<lparr>Call = [], QSODate = [], TimeOn = [], QSODateOff = [], TimeOff = [], Band = [],
     Mode = [], Freq = [], RSTSent = [], RSTRcvd = [], QTH = [], Name = [], Comment = [],
     GridSquare = [], Country = [], DXCC = [], MyGridSquare = [], StationCall = [],
     MyRig = [], MyAntenna = [], TxPwr = [], QslSent = [], QslRcvd = [], LotwSent = [],
     LotwRcvd = [], EqslSent = [], EqslRcvd = [], Timestamp = zero_Time\<rparr>"

record ADIFParser =
  QSOs :: "QSO list"

definition NewADIFParser :: ADIFParser where
  "NewADIFParser = \<lparr>QSOs = []\<rparr>"

text \<open>The slice expression \<open>s[i:j]\<close>, where it is in range.\<close>

definition slice :: "string \<Rightarrow> nat \<Rightarrow> nat \<Rightarrow> string" where
  "slice s i j = take (j - i) (drop i s)"

definition parseTimestamp :: "string \<Rightarrow> string \<Rightarrow> error + Time" where
  "parseTimestamp date timeOn =
    (if length date \<noteq> 8 \<or> length timeOn \<noteq> 6 then Inl ErrInvalidDateTimeFormat
     else
       case Atoi (slice date 0 4) of Inl err \<Rightarrow> Inl err | Inr year \<Rightarrow>
       case Atoi (slice date 4 6) of Inl err \<Rightarrow> Inl err | Inr month \<Rightarrow>
       case Atoi (slice date 6 8) of Inl err \<Rightarrow> Inl err | Inr day \<Rightarrow>
       case Atoi (slice timeOn 0 2) of Inl err \<Rightarrow> Inl err | Inr hour \<Rightarrow>
       case Atoi (slice timeOn 2 4) of Inl err \<Rightarrow> Inl err | Inr minute \<Rightarrow>
       case Atoi (slice timeOn 4 6) of Inl err \<Rightarrow> Inl err | Inr second \<Rightarrow>
         Inr (Date year month day hour minute second))"

text \<open>The \<open>switch fieldName\<close> of \<open>parseRecord\<close>.\<close>

definition set_field :: "CaseRanges \<Rightarrow> string \<Rightarrow> string \<Rightarrow> QSO \<Rightarrow> QSO" where
  "set_field cr fieldName fieldValue qso =
    (if fieldName = ''call'' then qso\<lparr>Call := ToUpper cr fieldValue\<rparr>
     else if fieldName = ''qso_date'' then qso\<lparr>QSODate := fieldValue\<rparr>
     else if fieldName = ''time_on'' then qso\<lparr>TimeOn := fieldValue\<rparr>
     else if fieldName = ''qso_date_off'' then qso\<lparr>QSODateOff := fieldValue\<rparr>
     else if fieldName = ''time_off'' then qso\<lparr>TimeOff := fieldValue\<rparr>
     else if fieldName = ''band'' then qso\<lparr>Band := fieldValue\<rparr>
     else if fieldName = ''mode'' then qso\<lparr>Mode := fieldValue\<rparr>
     else if fieldName = ''freq'' then qso\<lparr>Freq := fieldValue\<rparr>
     else if fieldName = ''rst_sent'' then qso\<lparr>RSTSent := fieldValue\<rparr>
     else if fieldName = ''rst_rcvd'' then qso\<lparr>RSTRcvd := fieldValue\<rparr>
     else if fieldName = ''qth'' then qso\<lparr>QTH := fieldValue\<rparr>
     else if fieldName = ''name'' then qso\<lparr>Name := fieldValue\<rparr>
     else if fieldName = ''comment'' then qso\<lparr>Comment := fieldValue\<rparr>
     else if fieldName = ''gridsquare'' then qso\<lparr>GridSquare := fieldValue\<rparr>
     else if fieldName = ''country'' then qso\<lparr>Country := fieldValue\<rparr>
     else if fieldName = ''dxcc'' then qso\<lparr>DXCC := fieldValue\<rparr>
     else if fieldName = ''my_gridsquare'' then qso\<lparr>MyGridSquare := fieldValue\<rparr>
     else if fieldName = ''station_callsign'' then qso\<lparr>StationCall := fieldValue\<rparr>
     else if fieldName = ''my_rig'' then qso\<lparr>MyRig := fieldValue\<rparr>
     else if fieldName = ''my_antenna'' then qso\<lparr>MyAntenna := fieldValue\<rparr>
     else if fieldName = ''tx_pwr'' then qso\<lparr>TxPwr := fieldValue\<rparr>
     else if fieldName = ''qsl_sent'' then qso\<lparr>QslSent := fieldValue\<rparr>
     else if fieldName = ''qsl_rcvd'' then qso\<lparr>QslRcvd := fieldValue\<rparr>
     else if fieldName = ''lotw_qsl_sent'' then qso\<lparr>LotwSent := fieldValue\<rparr>
     else if fieldName = ''lotw_qsl_rcvd'' then qso\<lparr>LotwRcvd := fieldValue\<rparr>
     else if fieldName = ''eqsl_qsl_sent'' then qso\<lparr>EqslSent := fieldValue\<rparr>
     else if fieldName = ''eqsl_qsl_rcvd'' then qso\<lparr>EqslRcvd := fieldValue\<rparr>
     else qso)"

text \<open>The loop over the matches. A match always has its four entries, so the first
  \<open>continue\<close> of the loop is never taken.\<close>

fun match_loop :: "CaseRanges \<Rightarrow> (string \<times> string \<times> string) list \<Rightarrow> QSO \<Rightarrow> QSO" where
  "match_loop cr [] qso = qso"
| "match_loop cr ((name, lengthStr, data) # matches) qso =
    (let fieldName = ToLower cr (TrimSpace name) in
     case Atoi lengthStr of
       Inl err \<Rightarrow> match_loop cr matches qso
     | Inr len \<Rightarrow>
        if int (length data) < len then match_loop cr matches qso
        else match_loop cr matches
               (set_field cr fieldName (TrimSpace (take (nat len) data)) qso))"

definition parseRecord :: "CaseRanges \<Rightarrow> string \<Rightarrow> QSO \<times> error option" where
  "parseRecord cr record =
    (let qso = match_loop cr (FindAllStringSubmatch record) zero_QSO;
         qso = (if QSODate qso \<noteq> [] \<and> TimeOn qso \<noteq> [] then
                  (case parseTimestamp (QSODate qso) (TimeOn qso) of
                     Inr timestamp \<Rightarrow> qso\<lparr>Timestamp := timestamp\<rparr>
                   | Inl err \<Rightarrow> qso)
                else qso)
     in if Call qso = [] \<or> QSODate qso = [] then (qso, Some ErrMissingRequiredFields)
        else (qso, None))"

text \<open>The loop over the records of \<open>parseContent\<close>.\<close>

fun record_loop :: "CaseRanges \<Rightarrow> string list \<Rightarrow> ADIFParser \<Rightarrow> ADIFParser" where
  "record_loop cr [] p = p"
| "record_loop cr (record # records) p =
    (let record = TrimSpace record in
     if record = [] then record_loop cr records p
     else
       (case parseRecord cr record of
          (qso, Some err) \<Rightarrow> record_loop cr records p
        | (qso, None) \<Rightarrow> record_loop cr records (p\<lparr>QSOs := QSOs p @ [qso]\<rparr>)))"

text \<open>\<open>parseContent\<close>. The position of \<open><EOH>\<close> is searched in the upper-cased copy
  of the content and the original content is sliced at it; the slice expression
  \<open>content[eohIndex+5:]\<close> panics when its bound is beyond \<open>len(content)\<close>.\<close>

definition parseContent :: "CaseRanges \<Rightarrow> ADIFParser \<Rightarrow> string \<Rightarrow> (error option \<times> ADIFParser) run" where
  "parseContent cr p content =
    (let eohIndex = Index (ToUpper cr content) ''<EOH>'' in
     if eohIndex \<noteq> - 1 \<and> int (length content) < eohIndex + 5 then Panics
     else
       let content = (if eohIndex \<noteq> - 1 then drop (nat (eohIndex + 5)) content else content);
           records = Split_eor content
       in Returns (None, record_loop cr records p))"

text \<open>An \<open>io.Reader\<close> is modelled by what \<open>io.ReadAll\<close> gets from it: the bytes read and
  the error that ended the reading, if any.\<close>

datatype Reader = Reader string "error option"

fun ReadAll :: "Reader \<Rightarrow> string \<times> error option" where
  "ReadAll (Reader content err) = (content, err)"

definition ParseFile :: "CaseRanges \<Rightarrow> ADIFParser \<Rightarrow> Reader \<Rightarrow> (error option \<times> ADIFParser) run" where
  "ParseFile cr p reader =
    (case ReadAll reader of
       (content, Some err) \<Rightarrow> Returns (Some (ErrFailedToRead err), p)
     | (content, None) \<Rightarrow> parseContent cr p content)"

subsection \<open>Queries\<close>

text \<open>The loop of \<open>SearchQSO\<close>; its state is \<open>bestMatch\<close>, \<open>bestTimeDiff\<close> and
  \<open>found\<close>. The negation \<open>-timeDiff\<close> is one of \<open>int64\<close>.\<close>

fun search_loop ::
  "string \<Rightarrow> Time \<Rightarrow> Duration \<Rightarrow> QSO list \<Rightarrow> QSO \<times> Duration \<times> bool \<Rightarrow> QSO \<times> Duration \<times> bool"
where
  "search_loop callSign searchTime tolerance [] st = st"
| "search_loop callSign searchTime tolerance (qso # qsos) (bestMatch, bestTimeDiff, found) =
    (if Call qso \<noteq> callSign then
       search_loop callSign searchTime tolerance qsos (bestMatch, bestTimeDiff, found)
     else if \<not> IsZero (Timestamp qso) then
       (let timeDiff = Sub (Timestamp qso) searchTime;
            timeDiff = (if timeDiff < 0 then wrap64 (- timeDiff) else timeDiff)
        in
        if timeDiff \<le> tolerance \<and> (\<not> found \<or> timeDiff < bestTimeDiff) then
          search_loop callSign searchTime tolerance qsos (qso, timeDiff, True)
        else search_loop callSign searchTime tolerance qsos (bestMatch, bestTimeDiff, found))
     else search_loop callSign searchTime tolerance qsos (bestMatch, bestTimeDiff, found))"

definition SearchQSO :: "CaseRanges \<Rightarrow> ADIFParser \<Rightarrow> string \<Rightarrow> Time \<Rightarrow> int \<Rightarrow> QSO list" where
  "SearchQSO cr p callSign searchTime toleranceMinutes =
    (let callSign = ToUpper cr (TrimSpace callSign);
         tolerance = wrap64 (toleranceMinutes * Minute);
         (bestMatch, bestTimeDiff, found) =
            search_loop callSign searchTime tolerance (QSOs p) (zero_QSO, 0, False)
     in if found then [bestMatch] else [])"

text \<open>The bubble sort of \<open>GetLatestQSOs\<close> and of \<open>GetPaperQSLHallOfFame\<close>: the two
  loops are the same but for the test that swaps two neighbours.\<close>

function bubble_inner :: "('a \<Rightarrow> 'a \<Rightarrow> bool) \<Rightarrow> nat \<Rightarrow> nat \<Rightarrow> 'a list \<Rightarrow> 'a list" where
  "bubble_inner swap_if bound j xs =
    (if j < bound then
       bubble_inner swap_if bound (j + 1)
         (if swap_if (xs ! j) (xs ! (j + 1)) then xs[j := xs ! (j + 1), j + 1 := xs ! j]
          else xs)
     else xs)"
  by pat_completeness auto
termination
  by (relation "measure (\<lambda>(swap_if, bound, j, xs). bound - j)") auto

declare bubble_inner.simps [simp del]

function bubble_outer :: "('a \<Rightarrow> 'a \<Rightarrow> bool) \<Rightarrow> nat \<Rightarrow> 'a list \<Rightarrow> 'a list" where
  "bubble_outer swap_if i xs =
    (if i + 1 < length xs then
       bubble_outer swap_if (i + 1) (bubble_inner swap_if (length xs - i - 1) 0 xs)
     else xs)"
  by pat_completeness auto
termination
proof (relation "measure (\<lambda>(swap_if, i, xs). length xs - i)")
  fix swap_if :: "'a \<Rightarrow> 'a \<Rightarrow> bool" and i :: nat and xs :: "'a list"
  assume "i + 1 < length xs"
  moreover have "length (bubble_inner swap_if bound j ys) = length ys" for bound j ys
    by (induction swap_if bound j ys rule: bubble_inner.induct)
       (subst bubble_inner.simps, simp)
  ultimately show "((swap_if, i + 1, bubble_inner swap_if (length xs - i - 1) 0 xs),
      (swap_if, i, xs)) \<in> measure (\<lambda>(swap_if, i, xs). length xs - i)"
    by simp
qed simp

declare bubble_outer.simps [simp del]

text \<open>\<open>GetLatestQSOs\<close>. The slice expression \<open>qsos[:limit]\<close> is reached with
  \<open>limit \<le> len(qsos)\<close> and panics when \<open>limit\<close> is negative.\<close>

definition GetLatestQSOs :: "ADIFParser \<Rightarrow> int \<Rightarrow> QSO list run" where
  "GetLatestQSOs p limit =
    (if length (QSOs p) = 0 then Returns []
     else
       let qsos = bubble_outer (\<lambda>a b. Before (Timestamp a) (Timestamp b)) 0 (QSOs p) in
       if int (length qsos) < limit then Returns qsos
       else if limit < 0 then Panics
       else Returns (take (nat limit) qsos))"

text \<open>The first loop of \<open>GetPaperQSLHallOfFame\<close> fills the map \<open>seen\<close>.\<close>

fun seen_loop :: "QSO list \<Rightarrow> (string \<rightharpoonup> QSO) \<Rightarrow> (string \<rightharpoonup> QSO)" where
  "seen_loop [] seen = seen"
| "seen_loop (qso # qsos) seen =
    (if QslRcvd qso = QslYes then
       (case seen (Call qso) of
          None \<Rightarrow> seen_loop qsos (seen(Call qso \<mapsto> qso))
        | Some existing \<Rightarrow>
           if Name qso \<noteq> [] \<and> Name existing = [] then seen_loop qsos (seen(Call qso \<mapsto> qso))
           else seen_loop qsos seen)
     else seen_loop qsos seen)"

text \<open>
  \<open>for _, qso := range seen\<close> visits the entries of the map in an order the Go runtime
  chooses. The order is a parameter of the model: \<open>keys\<close> lists the keys of \<open>seen\<close> in
  the order of the visit, each key once.
\<close>

definition range_order :: "(string \<rightharpoonup> QSO) \<Rightarrow> string list \<Rightarrow> bool" where
  "range_order seen keys \<longleftrightarrow> distinct keys \<and> set keys = dom seen"

definition GetPaperQSLHallOfFame :: "string list \<Rightarrow> ADIFParser \<Rightarrow> QSO list" where
  "GetPaperQSLHallOfFame keys p =
    (let seen = seen_loop (QSOs p) Map.empty;
         result = map (\<lambda>k. the (seen k)) keys
     in bubble_outer (\<lambda>a b. Call a > Call b) 0 result)"

subsection \<open>Formatting\<close>

definition FormatDate :: "QSO \<Rightarrow> string" where
  "FormatDate qso =
    (if length (QSODate qso) = 8 then
       slice (QSODate qso) 0 4 @ ''-'' @ slice (QSODate qso) 4 6 @ ''-'' @ slice (QSODate qso) 6 8
     else QSODate qso)"

definition FormatTime :: "QSO \<Rightarrow> string" where
  "FormatTime qso =
    (if 4 \<le> length (TimeOn qso) then slice (TimeOn qso) 0 2 @ '':'' @ slice (TimeOn qso) 2 4
     else TimeOn qso)"

section \<open>The reloadable parser (\<open>cmd/web.go\<close>)\<close>

text \<open>
  \<open>os.Open\<close> is modelled by a file system that maps a path to an error or to the reader
  of the file. The pointer \<open>rp.parser\<close> is \<open>None\<close> while it is \<open>nil\<close>. The mutex orders the
  accesses of concurrent goroutines and has no counterpart in a sequential model.
\<close>

type_synonym filesystem = "string \<Rightarrow> error + Reader"

record ReloadableParser =
  parser :: "ADIFParser option"
  filePath :: string

definition reload ::
  "CaseRanges \<Rightarrow> filesystem \<Rightarrow> ReloadableParser \<Rightarrow> (error option \<times> ReloadableParser) run" where
  "reload cr fs rp =
    (case fs (filePath rp) of
       Inl err \<Rightarrow> Returns (Some (ErrFailedToOpen err), rp)
     | Inr file \<Rightarrow>
        (case ParseFile cr NewADIFParser file of
           Panics \<Rightarrow> Panics
         | Returns (Some err, new_parser) \<Rightarrow> Returns (Some (ErrFailedToParse err), rp)
         | Returns (None, new_parser) \<Rightarrow> Returns (None, rp\<lparr>parser := Some new_parser\<rparr>)))"

definition getParser :: "ReloadableParser \<Rightarrow> ADIFParser option" where
  "getParser rp = parser rp"

section \<open>Notions of the specification\<close>

text \<open>The definitions of this section are not translations of the code. They state
  what the loops of the code are compared with.\<close>

text \<open>The records a list of chunks contributes, in the words of the loop: the chunks are
  trimmed, the empty ones are skipped, and a record is kept when \<open>parseRecord\<close> gives
  no error.\<close>

definition valid_records :: "CaseRanges \<Rightarrow> string list \<Rightarrow> QSO list" where
  "valid_records cr records =
     map (\<lambda>r. fst (parseRecord cr r))
       (filter (\<lambda>r. r \<noteq> [] \<and> snd (parseRecord cr r) = None) (map TrimSpace records))"

text \<open>One pass of the inner loop, on the list: the first element is carried to the right
  past every neighbour it has to be swapped with.\<close>

fun bubble_pass :: "('a \<Rightarrow> 'a \<Rightarrow> bool) \<Rightarrow> 'a \<Rightarrow> 'a list \<Rightarrow> 'a list" where
  "bubble_pass swap_if x [] = [x]"
| "bubble_pass swap_if x (y # ys) =
    (if swap_if x y then y # bubble_pass swap_if x ys else x # bubble_pass swap_if y ys)"

text \<open>The value the variable \<open>timeDiff\<close> of \<open>SearchQSO\<close> has for a record when it is
  compared with the tolerance, and the records that pass the tests of the loop.\<close>

definition timeDiff_of :: "Time \<Rightarrow> QSO \<Rightarrow> Duration" where
  "timeDiff_of searchTime qso =
    (let timeDiff = Sub (Timestamp qso) searchTime
     in if timeDiff < 0 then wrap64 (- timeDiff) else timeDiff)"

definition matches_search :: "string \<Rightarrow> Time \<Rightarrow> Duration \<Rightarrow> QSO \<Rightarrow> bool" where
  "matches_search callSign searchTime tolerance qso \<longleftrightarrow>
     Call qso = callSign \<and> \<not> IsZero (Timestamp qso) \<and> timeDiff_of searchTime qso \<le> tolerance"

text \<open>The records of a call sign whose paper QSL was received, in the order of the
  collection.\<close>

definition candidates :: "string \<Rightarrow> QSO list \<Rightarrow> QSO list" where
  "candidates c qsos = filter (\<lambda>q. QslRcvd q = QslYes \<and> Call q = c) qsos"

text \<open>The choice among the candidates of a call sign in the words of the specification:
  one with a name is preferred (the first such), otherwise the first-seen record is
  retained.\<close>

definition spec_preferred :: "QSO list \<Rightarrow> QSO option" where
  "spec_preferred cands =
    (case find (\<lambda>q. Name q \<noteq> []) cands of
       Some q \<Rightarrow> Some q
     | None \<Rightarrow> (case cands of [] \<Rightarrow> None | q # _ \<Rightarrow> Some q))"


text \<open>The content that \<open>parseContent\<close> splits into records, where its slice expression
  does not panic.\<close>

definition header_removed :: "CaseRanges \<Rightarrow> string \<Rightarrow> string" where
  "header_removed cr content =
    (let eohIndex = Index (ToUpper cr content) ''<EOH>''
     in if eohIndex \<noteq> - 1 then drop (nat (eohIndex + 5)) content else content)"

section \<open>Sample inputs\<close>

text \<open>A record with a call sign, a date and a time, written with lower-case letters and
  with blanks after two of the values.\<close>

definition sample_record :: string where
  "sample_record = ''<call:4>w1aw <qso_date:8>20240115 <time_on:6>143000''"

definition sample_qso :: QSO where
  "sample_qso = zero_QSO\<lparr>Call := ''W1AW'', QSODate := ''20240115'', TimeOn := ''143000'',
     Timestamp := 63840925800000000000\<rparr>"

text \<open>A document with a header, one record and a line break after the end-of-record
  marker.\<close>

definition sample_text :: string where
  "sample_text = ''ADIF export<EOH>'' @ [CHR 0x0A] @ sample_record @ ''<eOr>'' @ [CHR 0x0A]"

text \<open>A file system with the sample document, a file whose reading fails, and no other
  file.\<close>

definition sample_fs :: filesystem where
  "sample_fs path =
    (if path = ''log.adi'' then Inr (Reader sample_text None)
     else if path = ''broken.adi'' then Inr (Reader ''<call:4>W1'' (Some ErrIO))
     else Inl ErrIO)"



text \<open>Two records of a document: one without a time, whose timestamp stays zero, and one
  dated January 1 of the year 0000, which is before the zero \<open>Time\<close>.\<close>

definition year0_text :: string where
  "year0_text = ''<call:1>A<qso_date:1>1<eor><call:1>B<qso_date:8>00000101<time_on:6>000000''"

definition undated_qso :: QSO where
  "undated_qso = zero_QSO\<lparr>Call := ''A'', QSODate := ''1''\<rparr>"

definition year0_qso :: QSO where
  "year0_qso = zero_QSO\<lparr>Call := ''B'', QSODate := ''00000101'', TimeOn := ''000000'',
     Timestamp := - 31622400000000000\<rparr>"

text \<open>A collection with two confirmed records of M0XYZ, the second with a name, a
  confirmed record of A1A and a record that is not confirmed.\<close>

definition m0xyz_plain :: QSO where
  "m0xyz_plain = zero_QSO\<lparr>Call := ''M0XYZ'', QSODate := ''20240101'', QslRcvd := ''Y''\<rparr>"

definition m0xyz_alice :: QSO where
  "m0xyz_alice = zero_QSO\<lparr>Call := ''M0XYZ'', QSODate := ''20240202'', Name := ''Alice'',
     QslRcvd := ''Y''\<rparr>"

definition a1a_qso :: QSO where
  "a1a_qso = zero_QSO\<lparr>Call := ''A1A'', QSODate := ''20240303'', QslRcvd := ''Y''\<rparr>"

definition b2b_qso :: QSO where
  "b2b_qso = zero_QSO\<lparr>Call := ''B2B'', QSODate := ''20240404'', QslRcvd := ''N''\<rparr>"

definition hall_parser :: ADIFParser where
  "hall_parser = \<lparr>QSOs = [m0xyz_plain, b2b_qso, m0xyz_alice, a1a_qso]\<rparr>"

text \<open>A file system whose log file is the header \<open>\xE9<EOH>\<close>.\<close>

definition latin1_fs :: filesystem where
  "latin1_fs path =
    (if path = ''log.adi'' then Inr (Reader (CHR 0xE9 # ''<EOH>'') None) else Inl ErrIO)"

section \<open>Parsing: what the loops compute\<close>




lemma record_loop_valid_records:
  "QSOs (record_loop cr records p) = QSOs p @ valid_records cr records"
proof (induction records arbitrary: p)
  case Nil
  show ?case by (simp add: valid_records_def)
next
  case (Cons r records)
  show ?case
  proof (cases "TrimSpace r = []")
    case True
    with Cons.IH [of p] show ?thesis
      by (simp add: valid_records_def)
  next
    case False
    obtain qso err where pr: "parseRecord cr (TrimSpace r) = (qso, err)"
      by (cases "parseRecord cr (TrimSpace r)")
    show ?thesis
    proof (cases err)
      case None
      with False pr Cons.IH [of "p\<lparr>QSOs := QSOs p @ [qso]\<rparr>"] show ?thesis
        by (simp add: valid_records_def)
    next
      case (Some e)
      with False pr Cons.IH [of p] show ?thesis
        by (simp add: valid_records_def)
    qed
  qed
qed

lemma ADIFParser_eq_iff: "p = q \<longleftrightarrow> QSOs p = QSOs q" for p q :: ADIFParser
  by (cases p, cases q) simp

lemma record_loop_append:
  "record_loop cr records p = p\<lparr>QSOs := QSOs p @ valid_records cr records\<rparr>"
  by (simp add: ADIFParser_eq_iff record_loop_valid_records)

lemma valid_records_valid:
  "qso \<in> set (valid_records cr records) \<Longrightarrow> Call qso \<noteq> [] \<and> QSODate qso \<noteq> []"
  by (auto simp: valid_records_def parseRecord_def Let_def split: if_splits)

subsection \<open>Evaluation and the timestamp of a record\<close>

lemmas string_eval =
  ToUpper_def ToLower_def isASCII_def byte_def upper_byte_def lower_byte_def
  TrimSpace_def TrimLeft_def TrimRight_def leading_space_def space_encodings_def
lemmas regexp_eval =
  Split_eor_def eor_at_def match_field_def is_name_byte_def is_digit_def is_data_byte_def
  lower_byte_def
lemmas atoi_eval = Atoi_def digits_value_def is_digit_def byte_def
lemmas date_eval = Date_def norm_def days_before_year_def daysBefore_def isLeap_def

lemma set_field_Timestamp [simp]: "Timestamp (set_field cr n v qso) = Timestamp qso"
  by (simp add: set_field_def)

lemma match_loop_Timestamp [simp]: "Timestamp (match_loop cr matches qso) = Timestamp qso"
  by (induction cr matches qso rule: match_loop.induct) (simp_all add: Let_def split: sum.splits)

lemma parseRecord_Timestamp:
  assumes "parseRecord cr record = (qso, err)"
  shows "Timestamp qso =
    (if QSODate qso \<noteq> [] \<and> TimeOn qso \<noteq> [] then
       (case parseTimestamp (QSODate qso) (TimeOn qso) of
          Inr timestamp \<Rightarrow> timestamp | Inl e \<Rightarrow> zero_Time)
     else zero_Time)"
  using assms
  by (auto simp: parseRecord_def Let_def zero_QSO_def split: if_splits sum.splits)




section \<open>The bubble sort\<close>

lemma length_bubble_inner [simp]: "length (bubble_inner swap_if bound j xs) = length xs"
  by (induction swap_if bound j xs rule: bubble_inner.induct)
     (subst bubble_inner.simps, simp)

lemma bubble_inner_stop: "\<not> j < bound \<Longrightarrow> bubble_inner swap_if bound j xs = xs"
  by (subst bubble_inner.simps) simp

lemma bubble_inner_step:
  "j < bound \<Longrightarrow> bubble_inner swap_if bound j xs =
     bubble_inner swap_if bound (Suc j)
       (if swap_if (xs ! j) (xs ! Suc j) then xs[j := xs ! Suc j, Suc j := xs ! j] else xs)"
  by (subst bubble_inner.simps) simp

lemma bubble_outer_stop: "\<not> Suc i < length xs \<Longrightarrow> bubble_outer swap_if i xs = xs"
  by (subst bubble_outer.simps) simp

lemma bubble_outer_step:
  "Suc i < length xs \<Longrightarrow> bubble_outer swap_if i xs =
     bubble_outer swap_if (Suc i) (bubble_inner swap_if (length xs - i - 1) 0 xs)"
  by (subst bubble_outer.simps) simp

lemma length_bubble_outer [simp]: "length (bubble_outer swap_if i xs) = length xs"
  by (induction swap_if i xs rule: bubble_outer.induct)
     (subst bubble_outer.simps, simp)

lemma bubble_inner_pass:
  "length pre = j \<Longrightarrow> j + length mid = bound \<Longrightarrow>
     bubble_inner swap_if bound j (pre @ x # mid @ post) = pre @ bubble_pass swap_if x mid @ post"
proof (induction mid arbitrary: pre x j)
  case Nil
  then show ?case by (simp add: bubble_inner_stop)
next
  case (Cons y mid)
  from Cons.prems have j: "j < bound" by simp
  have x: "(pre @ x # (y # mid) @ post) ! j = x"
    using Cons.prems(1) by (simp add: nth_append)
  have y: "(pre @ x # (y # mid) @ post) ! Suc j = y"
    using Cons.prems(1) by (simp add: nth_append)
  have sw: "(pre @ x # (y # mid) @ post)[j := y, Suc j := x] = (pre @ [y]) @ x # mid @ post"
    using Cons.prems(1) by (simp add: list_update_append)
  have ns: "pre @ x # (y # mid) @ post = (pre @ [x]) @ y # mid @ post"
    by simp
  show ?case
  proof (cases "swap_if x y")
    case True
    have "bubble_inner swap_if bound j (pre @ x # (y # mid) @ post)
        = bubble_inner swap_if bound (Suc j) ((pre @ [y]) @ x # mid @ post)"
      by (subst bubble_inner_step [OF j]) (simp only: x y sw True if_True)
    also have "\<dots> = (pre @ [y]) @ bubble_pass swap_if x mid @ post"
      using Cons.prems by (intro Cons.IH) simp_all
    finally show ?thesis using True by simp
  next
    case False
    have "bubble_inner swap_if bound j (pre @ x # (y # mid) @ post)
        = bubble_inner swap_if bound (Suc j) ((pre @ [x]) @ y # mid @ post)"
      by (subst bubble_inner_step [OF j]) (simp only: x y False if_False, simp)
    also have "\<dots> = (pre @ [x]) @ bubble_pass swap_if y mid @ post"
      using Cons.prems by (intro Cons.IH) simp_all
    finally show ?thesis using False by simp
  qed
qed

lemma length_bubble_pass [simp]: "length (bubble_pass swap_if x ys) = Suc (length ys)"
  by (induction ys arbitrary: x) simp_all

lemma mset_bubble_pass [simp]: "mset (bubble_pass swap_if x ys) = mset (x # ys)"
  by (induction ys arbitrary: x) simp_all

lemma set_bubble_pass [simp]: "set (bubble_pass swap_if x ys) = set (x # ys)"
  using mset_bubble_pass [of swap_if x ys] by (metis set_mset_mset)

lemma bubble_pass_not_Nil [simp]: "bubble_pass swap_if x ys \<noteq> []"
  by (cases ys) simp_all

lemma last_bubble_pass_max:
  fixes f :: "'a \<Rightarrow> 'k::linorder"
  shows "\<forall>z \<in> set (x # ys). f z \<le> f (last (bubble_pass (\<lambda>a b. f a > f b) x ys))"
proof (induction ys arbitrary: x)
  case Nil
  show ?case by simp
next
  case (Cons y ys)
  show ?case
  proof (cases "f x > f y")
    case True
    let ?l = "last (bubble_pass (\<lambda>a b. f a > f b) x ys)"
    from Cons.IH [of x] have le: "\<forall>z \<in> set (x # ys). f z \<le> f ?l" .
    then have "f x \<le> f ?l" by simp
    with True have "f y \<le> f ?l" by simp
    with le True show ?thesis by simp
  next
    case False
    let ?l = "last (bubble_pass (\<lambda>a b. f a > f b) y ys)"
    from Cons.IH [of y] have le: "\<forall>z \<in> set (y # ys). f z \<le> f ?l" .
    then have "f y \<le> f ?l" by simp
    with False have "f x \<le> f ?l" by simp
    with le False show ?thesis by simp
  qed
qed

lemma filter_bubble_pass:
  fixes f :: "'a \<Rightarrow> 'k::linorder"
  shows "filter (\<lambda>z. f z = k) (bubble_pass (\<lambda>a b. f a > f b) x ys)
       = filter (\<lambda>z. f z = k) (x # ys)"
  by (induction ys arbitrary: x) auto

text \<open>The outer loop sorts the part of the list that it has not put in place yet, and
  the sort is stable.\<close>

lemma bubble_outer_sort_key:
  fixes f :: "'a \<Rightarrow> 'k::linorder"
  shows "length front = n \<Longrightarrow> length rear = i \<Longrightarrow>
     bubble_outer (\<lambda>a b. f a > f b) i (front @ rear) = sort_key f front @ rear"
proof (induction n arbitrary: front rear i)
  case 0
  then show ?case by (simp add: bubble_outer_stop)
next
  case (Suc n)
  then obtain x mid where front: "front = x # mid" and mid: "length mid = n"
    by (cases front) auto
  show ?case
  proof (cases n)
    case 0
    with front mid Suc.prems show ?thesis
      by (simp add: bubble_outer_stop)
  next
    case (Suc m)
    let ?sw = "\<lambda>a b. f a > f b"
    let ?front' = "bubble_pass ?sw x mid"
    let ?l = "last ?front'"
    have bl: "butlast ?front' @ [?l] = ?front'"
      by simp
    have step: "Suc i < length (front @ rear)"
      using Suc front mid Suc.prems by simp
    have bound: "length (front @ rear) - i - 1 = length mid"
      using front Suc.prems by simp
    have "bubble_inner ?sw (length mid) 0 ([] @ x # mid @ rear) = [] @ ?front' @ rear"
      by (rule bubble_inner_pass) simp_all
    then have "bubble_inner ?sw (length mid) 0 (front @ rear) = ?front' @ rear"
      using front by simp
    also have "?front' @ rear = butlast ?front' @ (?l # rear)"
      using bl by (metis append_Cons append_Nil append_assoc)
    finally have inner: "bubble_inner ?sw (length (front @ rear) - i - 1) 0 (front @ rear)
        = butlast ?front' @ (?l # rear)"
      unfolding bound .
    have "bubble_outer ?sw i (front @ rear)
        = bubble_outer ?sw (Suc i) (butlast ?front' @ (?l # rear))"
      by (subst bubble_outer_step [OF step]) (simp only: inner)
    also have "\<dots> = sort_key f (butlast ?front') @ (?l # rear)"
      using mid Suc.prems by (intro Suc.IH) simp_all
    also have "\<dots> = (sort_key f (butlast ?front') @ [?l]) @ rear"
      by simp
    finally have r: "bubble_outer ?sw i (front @ rear)
        = (sort_key f (butlast ?front') @ [?l]) @ rear" .
    have "sort_key f (butlast ?front') @ [?l] = sort_key f front"
    proof (rule properties_for_sort_key [symmetric])
      have "mset (sort_key f (butlast ?front') @ [?l]) = mset (butlast ?front' @ [?l])"
        by (simp only: mset_append mset_sort)
      also have "\<dots> = mset ?front'"
        by (simp only: bl)
      also have "\<dots> = mset front"
        using front by simp
      finally show "mset (sort_key f (butlast ?front') @ [?l]) = mset front" .
    next
      fix k
      have pc: "(\<lambda>z. f k = f z) = (\<lambda>z. f z = f k)"
        by auto
      have "filter (\<lambda>z. f z = f k) (sort_key f (butlast ?front') @ [?l])
          = filter (\<lambda>z. f z = f k) (butlast ?front' @ [?l])"
        by (simp only: filter_append sort_key_stable)
      also have "\<dots> = filter (\<lambda>z. f z = f k) ?front'"
        by (simp only: bl)
      also have "\<dots> = filter (\<lambda>z. f z = f k) (x # mid)"
        by (rule filter_bubble_pass)
      finally show "filter (\<lambda>z. f k = f z) (sort_key f (butlast ?front') @ [?l])
          = filter (\<lambda>z. f k = f z) front"
        unfolding pc front .
    next
      have "\<forall>z \<in> set (butlast ?front'). f z \<le> f ?l"
        using last_bubble_pass_max [of x mid f] in_set_butlastD [of _ ?front']
        by auto
      then show "sorted (map f (sort_key f (butlast ?front') @ [?l]))"
        by (simp add: sorted_append)
    qed
    with r show ?thesis by (simp only:)
  qed
qed

lemma bubble_outer_is_stable_sort:
  fixes f :: "'a \<Rightarrow> 'k::linorder"
  shows "bubble_outer (\<lambda>a b. f a > f b) 0 xs = sort_key f xs"
  using bubble_outer_sort_key [of xs "length xs" "[]" 0 f] by simp

section \<open>\<open>GetLatestQSOs\<close>: the number of records returned\<close>

text \<open>
  Claim C10. \<open>GetLatestQSOs(limit)\<close> returns for every collection when \<open>limit \<ge> 0\<close>, and
  it returns exactly \<open>min(limit, len(p.QSOs))\<close> records. With a negative \<open>limit\<close> and a
  collection that is not empty the slice expression \<open>qsos[:limit]\<close> panics.
\<close>

theorem GetLatestQSOs_total:
  "(0 \<le> limit \<longrightarrow>
      (\<exists>qsos. GetLatestQSOs p limit = Returns qsos
         \<and> int (length qsos) = min limit (int (length (QSOs p)))))
   \<and> (limit < 0 \<and> QSOs p \<noteq> [] \<longrightarrow> GetLatestQSOs p limit = Panics)"
  by (auto simp: GetLatestQSOs_def Let_def)

theorem GetLatestQSOs_total_witness:
  "(\<exists>qsos. GetLatestQSOs \<lparr>QSOs = [zero_QSO, zero_QSO\<lparr>Timestamp := 5\<rparr>]\<rparr> 1 = Returns qsos
      \<and> int (length qsos) = 1)
   \<and> GetLatestQSOs \<lparr>QSOs = [zero_QSO]\<rparr> (- 1) = Panics"
  using GetLatestQSOs_total [of 1 "\<lparr>QSOs = [zero_QSO, zero_QSO\<lparr>Timestamp := 5\<rparr>]\<rparr>"]
        GetLatestQSOs_total [of "- 1" "\<lparr>QSOs = [zero_QSO]\<rparr>"]
  by simp

section \<open>The timestamp of a record\<close>

lemma matches_sample:
  "FindAllStringSubmatch sample_record =
     [(''call'', ''4'', ''w1aw ''), (''qso_date'', ''8'', ''20240115 ''),
      (''time_on'', ''6'', ''143000'')]"
  by (simp add: sample_record_def regexp_eval)

lemma match_loop_sample:
  "match_loop cr
     [(''call'', ''4'', ''w1aw ''), (''qso_date'', ''8'', ''20240115 ''),
      (''time_on'', ''6'', ''143000'')] zero_QSO
   = zero_QSO\<lparr>Call := ''W1AW'', QSODate := ''20240115'', TimeOn := ''143000''\<rparr>"
  by (simp add: string_eval atoi_eval set_field_def)

lemma parseTimestamp_sample:
  "parseTimestamp ''20240115'' ''143000'' = Inr 63840925800000000000"
  by (simp add: parseTimestamp_def slice_def atoi_eval date_eval)

lemma parseRecord_sample: "parseRecord cr sample_record = (sample_qso, None)"
  unfolding parseRecord_def matches_sample match_loop_sample
  by (simp add: parseTimestamp_sample zero_QSO_def sample_qso_def)

lemma Date_sample: "Date 2024 1 15 14 30 0 = 63840925800000000000"
  by (simp add: date_eval)

lemma Date_unix_epoch: "Date 1970 1 1 0 0 0 = 62135596800000000000"
  by (simp add: date_eval)

text \<open>
  Claim C7. A record that is parsed with \<open>qsoDate = "20240115"\<close> and
  \<open>timeOn = "143000"\<close> has the timestamp 2024-01-15T14:30:00 UTC, which is 1705329000
  seconds after the Unix epoch, and \<open>FormatDate\<close> and \<open>FormatTime\<close> give \<open>"2024-01-15"\<close>
  and \<open>"14:30"\<close> for it.
\<close>

theorem timestamp_and_format_round_trip:
  assumes "parseRecord cr record = (qso, err)"
    and "QSODate qso = ''20240115''" and "TimeOn qso = ''143000''"
  shows "Timestamp qso = Date 2024 1 15 14 30 0
    \<and> Sub (Timestamp qso) (Date 1970 1 1 0 0 0) = 1705329000 * 1000000000
    \<and> FormatDate qso = ''2024-01-15''
    \<and> FormatTime qso = ''14:30''"
proof -
  have "Timestamp qso = Date 2024 1 15 14 30 0"
    using parseRecord_Timestamp [OF assms(1)] assms(2,3)
    by (simp add: parseTimestamp_sample Date_sample)
  moreover have "Sub (Date 2024 1 15 14 30 0) (Date 1970 1 1 0 0 0) = 1705329000 * 1000000000"
    by (simp add: Date_sample Date_unix_epoch Sub_def minDuration_def maxDuration_def)
  moreover have "FormatDate qso = ''2024-01-15''"
    using assms(2) by (simp add: FormatDate_def slice_def)
  moreover have "FormatTime qso = ''14:30''"
    using assms(3) by (simp add: FormatTime_def slice_def)
  ultimately show ?thesis by simp
qed

theorem timestamp_and_format_round_trip_witness:
  "parseRecord no_case_ranges sample_record = (sample_qso, None)
   \<and> QSODate sample_qso = ''20240115'' \<and> TimeOn sample_qso = ''143000''
   \<and> Timestamp sample_qso = Date 2024 1 15 14 30 0
   \<and> Sub (Timestamp sample_qso) (Date 1970 1 1 0 0 0) = 1705329000 * 1000000000
   \<and> FormatDate sample_qso = ''2024-01-15''
   \<and> FormatTime sample_qso = ''14:30''"
proof -
  have d: "QSODate sample_qso = ''20240115''" and t: "TimeOn sample_qso = ''143000''"
    by (simp_all add: sample_qso_def)
  from timestamp_and_format_round_trip [OF parseRecord_sample d t] parseRecord_sample d t
  show ?thesis by blast
qed








section \<open>Parsing a document\<close>

lemma Index_sample_text: "Index (ToUpper cr sample_text) ''<EOH>'' = 11"
  by (simp add: sample_text_def sample_record_def ToUpper_def isASCII_def byte_def upper_byte_def)

lemma Split_sample_text:
  "Split_eor (drop 16 sample_text) = [CHR 0x0A # sample_record, [CHR 0x0A]]"
  by (simp add: sample_text_def sample_record_def regexp_eval)

lemma TrimSpace_sample_chunks:
  "TrimSpace (CHR 0x0A # sample_record) = sample_record" "TrimSpace [CHR 0x0A] = []"
  by (simp_all add: sample_record_def string_eval)

lemma sample_record_not_empty: "sample_record \<noteq> []"
  by (simp add: sample_record_def)

lemma parseContent_sample_text:
  "parseContent cr p sample_text = Returns (None, p\<lparr>QSOs := QSOs p @ [sample_qso]\<rparr>)"
proof -
  have "length sample_text = 74"
    by (simp add: sample_text_def sample_record_def)
  then show ?thesis
    unfolding parseContent_def Index_sample_text
    by (simp add: Split_sample_text TrimSpace_sample_chunks parseRecord_sample
        sample_record_not_empty)
qed

lemma parseContent_from_fresh:
  "parseContent cr p content =
     (case parseContent cr NewADIFParser content of
        Panics \<Rightarrow> Panics
      | Returns (err, a) \<Rightarrow> Returns (err, p\<lparr>QSOs := QSOs p @ QSOs a\<rparr>))"
  by (simp add: parseContent_def Let_def record_loop_append NewADIFParser_def)

lemma ParseFile_from_fresh:
  "ParseFile cr p reader =
     (case ParseFile cr NewADIFParser reader of
        Panics \<Rightarrow> Panics
      | Returns (err, a) \<Rightarrow> Returns (err, p\<lparr>QSOs := QSOs p @ QSOs a\<rparr>))"
proof (cases reader)
  case (Reader content e)
  show ?thesis
  proof (cases e)
    case None
    with Reader show ?thesis
      using parseContent_from_fresh [of cr p content] by (simp add: ParseFile_def)
  next
    case (Some err)
    with Reader show ?thesis
      by (simp add: ParseFile_def NewADIFParser_def)
  qed
qed


text \<open>
  What \<open>parseContent\<close> does on every content: it panics when the end-of-header marker
  is found in the upper-cased copy at an index whose slice bound is beyond the content,
  and otherwise it returns no error and the collection before with the valid records of
  the chunks added in their order; each of them has a call sign and a date. A content of
  ASCII bytes never makes it panic (\<open>parseContent_ascii_returns\<close>).
\<close>

lemma parseContent_eq:
  "parseContent cr p content =
    (if Index (ToUpper cr content) ''<EOH>'' \<noteq> - 1
        \<and> int (length content) < Index (ToUpper cr content) ''<EOH>'' + 5
     then Panics
     else Returns (None,
            p\<lparr>QSOs := QSOs p @ valid_records cr (Split_eor (header_removed cr content))\<rparr>))"
  by (simp add: parseContent_def header_removed_def Let_def record_loop_append)

lemma parseContent_returns:
  "parseContent cr p content \<noteq> Panics \<Longrightarrow>
     parseContent cr p content =
       Returns (None,
         p\<lparr>QSOs := QSOs p @ valid_records cr (Split_eor (header_removed cr content))\<rparr>)"
  by (simp add: parseContent_eq split: if_splits)

lemma parseContent_returns_valid_records:
  assumes "parseContent cr p content = Returns (err, p')"
  shows "err = None
     \<and> QSOs p' = QSOs p @ valid_records cr (Split_eor (header_removed cr content))
     \<and> (\<forall>qso \<in> set (valid_records cr (Split_eor (header_removed cr content))).
           Call qso \<noteq> [] \<and> QSODate qso \<noteq> [])"
proof -
  from assms have "parseContent cr p content \<noteq> Panics"
    by simp
  from parseContent_returns [OF this] assms show ?thesis
    using valid_records_valid by auto
qed

lemma ToUpper_latin1_header:
  "ToUpper no_case_ranges (CHR 0xE9 # ''<EOH>'') = [CHR 0xEF, CHR 0xBF, CHR 0xBD] @ ''<EOH>''"
  by (simp add: ToUpper_def isASCII_def byte_def Map_def unicode_ToUpper_def
      no_case_ranges_def EncodeRune_def RuneError_def String.char_of_eq_iff)

text \<open>
  Claim C1 fails at a document whose header holds a byte that is not ASCII. The header
  \<open>\xE9<EOH>\<close> (the letter e with an acute accent in Latin-1, then the marker) is 6 bytes;
  its upper-cased copy is 8 bytes, since \<open>strings.ToUpper\<close> writes the invalid byte as
  \<open>U+FFFD\<close>; the marker is found at index 3 of the copy, and \<open>content[8:]\<close> panics.
\<close>

theorem ParseFile_panics_on_latin1_header:
  "ParseFile no_case_ranges NewADIFParser (Reader (CHR 0xE9 # ''<EOH>'') None) = Panics"
  by (simp add: ParseFile_def parseContent_def ToUpper_latin1_header)

text \<open>The same defect without a panic: with a record after the header, the slice starts
  two bytes late, the \<open>call\<close> field is not recognised and the record is dropped.\<close>

lemma Index_latin1_document:
  "Index (ToUpper no_case_ranges (CHR 0xE9 # ''<EOH><call:1>A<qso_date:1>1<eor>'')) ''<EOH>'' = 3"
  by (simp add: ToUpper_def isASCII_def byte_def Map_def unicode_ToUpper_def
      no_case_ranges_def EncodeRune_def RuneError_def String.char_of_eq_iff)

lemma parseContent_loses_record_after_latin1_header:
  "parseContent no_case_ranges NewADIFParser (CHR 0xE9 # ''<EOH><call:1>A<qso_date:1>1<eor>'')
     = Returns (None, \<lparr>QSOs = []\<rparr>)"
  unfolding parseContent_def Index_latin1_document
  by (simp add: NewADIFParser_def TrimSpace_def TrimLeft_def TrimRight_def leading_space_def
      space_encodings_def ToLower_def isASCII_def byte_def regexp_eval atoi_eval set_field_def
      parseRecord_def zero_QSO_def Let_def)




section \<open>Parsing twice, and reloading\<close>

text \<open>
  Claim C9. \<open>ParseFile\<close> adds to the collection of the parser it is called on: parsing
  a first and then a second input with a parser gives the records the parser had, then
  the valid records of the first input, then those of the second; parsing the same input
  twice with a new parser gives twice its records. \<open>reload\<close> parses with a new parser, so
  the collection it installs is the one of the file alone.
\<close>

theorem ParseFile_accumulates:
  assumes "ParseFile cr NewADIFParser r1 = Returns (None, a)"
    and "ParseFile cr NewADIFParser r2 = Returns (None, b)"
  shows "(\<exists>p1 p2. ParseFile cr p r1 = Returns (None, p1) \<and> QSOs p1 = QSOs p @ QSOs a
            \<and> ParseFile cr p1 r2 = Returns (None, p2) \<and> QSOs p2 = QSOs p @ QSOs a @ QSOs b)
    \<and> (\<exists>p2. ParseFile cr a r1 = Returns (None, p2) \<and> length (QSOs p2) = 2 * length (QSOs a))
    \<and> (\<forall>fs rp. fs (filePath rp) = Inr r1 \<longrightarrow>
           reload cr fs rp = Returns (None, rp\<lparr>parser := Some a\<rparr>))"
proof -
  have 1: "ParseFile cr q r1 = Returns (None, q\<lparr>QSOs := QSOs q @ QSOs a\<rparr>)" for q
    using ParseFile_from_fresh [of cr q r1] assms(1) by simp
  have 2: "ParseFile cr q r2 = Returns (None, q\<lparr>QSOs := QSOs q @ QSOs b\<rparr>)" for q
    using ParseFile_from_fresh [of cr q r2] assms(2) by simp
  have "\<exists>p1 p2. ParseFile cr p r1 = Returns (None, p1) \<and> QSOs p1 = QSOs p @ QSOs a
            \<and> ParseFile cr p1 r2 = Returns (None, p2) \<and> QSOs p2 = QSOs p @ QSOs a @ QSOs b"
    using 1 [of p] 2 [of "p\<lparr>QSOs := QSOs p @ QSOs a\<rparr>"] by simp
  moreover have "\<exists>p2. ParseFile cr a r1 = Returns (None, p2)
            \<and> length (QSOs p2) = 2 * length (QSOs a)"
    using 1 [of a] by simp
  moreover have "reload cr fs rp = Returns (None, rp\<lparr>parser := Some a\<rparr>)"
    if "fs (filePath rp) = Inr r1" for fs rp
    using that assms(1) by (simp add: reload_def)
  ultimately show ?thesis by blast
qed

lemma ParseFile_sample_text:
  "ParseFile cr p (Reader sample_text None) = Returns (None, p\<lparr>QSOs := QSOs p @ [sample_qso]\<rparr>)"
  by (simp add: ParseFile_def parseContent_sample_text)

theorem ParseFile_accumulates_witness:
  "ParseFile no_case_ranges NewADIFParser (Reader sample_text None)
      = Returns (None, \<lparr>QSOs = [sample_qso]\<rparr>)
   \<and> (\<exists>p1 p2. ParseFile no_case_ranges \<lparr>QSOs = [zero_QSO]\<rparr> (Reader sample_text None)
                  = Returns (None, p1)
         \<and> QSOs p1 = [zero_QSO, sample_qso]
         \<and> ParseFile no_case_ranges p1 (Reader sample_text None) = Returns (None, p2)
         \<and> QSOs p2 = [zero_QSO, sample_qso, sample_qso])
   \<and> (\<exists>p2. ParseFile no_case_ranges \<lparr>QSOs = [sample_qso]\<rparr> (Reader sample_text None)
                = Returns (None, p2) \<and> length (QSOs p2) = 2)
   \<and> reload no_case_ranges sample_fs \<lparr>parser = Some \<lparr>QSOs = [zero_QSO]\<rparr>, filePath = ''log.adi''\<rparr>
        = Returns (None, \<lparr>parser = Some \<lparr>QSOs = [sample_qso]\<rparr>, filePath = ''log.adi''\<rparr>)"
proof -
  have f: "ParseFile no_case_ranges NewADIFParser (Reader sample_text None)
      = Returns (None, \<lparr>QSOs = [sample_qso]\<rparr>)"
    by (simp add: ParseFile_sample_text NewADIFParser_def)
  have s: "sample_fs (filePath \<lparr>parser = Some \<lparr>QSOs = [zero_QSO]\<rparr>, filePath = ''log.adi''\<rparr>)
     = Inr (Reader sample_text None)"
    by (simp add: sample_fs_def)
  from ParseFile_accumulates [OF f f, of "\<lparr>QSOs = [zero_QSO]\<rparr>"] f s
  show ?thesis by fastforce
qed

lemma parseContent_error_None: "parseContent cr p content = Returns (err, p') \<Longrightarrow> err = None"
  by (auto simp: parseContent_def Let_def split: if_splits)

lemma reload_open_fails:
  "fs (filePath rp) = Inl e \<Longrightarrow> reload cr fs rp = Returns (Some (ErrFailedToOpen e), rp)"
  by (simp add: reload_def)

lemma reload_read_fails:
  "fs (filePath rp) = Inr (Reader content (Some e)) \<Longrightarrow>
     reload cr fs rp = Returns (Some (ErrFailedToParse (ErrFailedToRead e)), rp)"
  by (simp add: reload_def ParseFile_def)

lemma reload_read:
  assumes f: "fs (filePath rp) = Inr (Reader content None)"
  shows "reload cr fs rp =
       (case parseContent cr NewADIFParser content of
          Panics \<Rightarrow> Panics
        | Returns (err, new_parser) \<Rightarrow> Returns (None, rp\<lparr>parser := Some new_parser\<rparr>))"
proof (cases "parseContent cr NewADIFParser content")
  case Panics
  with f show ?thesis
    by (simp add: reload_def ParseFile_def)
next
  case (Returns res)
  then have "fst res = None"
    by (cases res) (simp add: parseContent_error_None)
  with f Returns show ?thesis
    by (cases res) (simp add: reload_def ParseFile_def)
qed

lemma reload_outcomes:
  "reload cr fs rp =
    (case fs (filePath rp) of
       Inl e \<Rightarrow> Returns (Some (ErrFailedToOpen e), rp)
     | Inr (Reader content (Some e)) \<Rightarrow>
         Returns (Some (ErrFailedToParse (ErrFailedToRead e)), rp)
     | Inr (Reader content None) \<Rightarrow>
         (case parseContent cr NewADIFParser content of
            Panics \<Rightarrow> Panics
          | Returns (err, new_parser) \<Rightarrow> Returns (None, rp\<lparr>parser := Some new_parser\<rparr>)))"
proof (cases "fs (filePath rp)")
  case (Inl e)
  then show ?thesis
    by (simp add: reload_open_fails)
next
  case (Inr rd)
  obtain content eo where rd: "rd = Reader content eo"
    by (cases rd)
  show ?thesis
  proof (cases eo)
    case None
    with Inr rd show ?thesis
      by (simp add: reload_read)
  next
    case (Some e)
    with Inr rd show ?thesis
      by (simp add: reload_read_fails)
  qed
qed

lemma reload_error_keeps_parser:
  assumes "reload cr fs rp = Returns (Some err, rp')"
  shows "rp' = rp \<and> getParser rp' = getParser rp"
  using assms unfolding reload_outcomes
  by (auto split: sum.splits Reader.splits option.splits run.splits prod.splits)

text \<open>
  Claim C6 fails at a file that makes the parser panic, the file of claim C1: its
  content is the header \<open>\xE9<EOH>\<close>. \<open>reload\<close> opens and reads the file, the panic of
  \<open>parseContent\<close> goes through \<open>ParseFile\<close> and \<open>reload\<close>, and \<open>reload\<close> returns no error
  to its caller.
\<close>

theorem reload_panics_on_latin1_header:
  "latin1_fs ''log.adi'' = Inr (Reader (CHR 0xE9 # ''<EOH>'') None)
   \<and> reload no_case_ranges latin1_fs
        \<lparr>parser = Some \<lparr>QSOs = [sample_qso]\<rparr>, filePath = ''log.adi''\<rparr> = Panics"
  by (simp add: reload_def latin1_fs_def ParseFile_def parseContent_def ToUpper_latin1_header)

section \<open>\<open>GetLatestQSOs\<close>: the order of the records\<close>

lemma GetLatestQSOs_sort_key:
  assumes "0 \<le> n"
  shows "GetLatestQSOs p n = Returns (take (nat n) (sort_key (\<lambda>q. - Timestamp q) (QSOs p)))"
proof -
  have sw: "(\<lambda>a b. Before (Timestamp a) (Timestamp b))
      = (\<lambda>a b. (- Timestamp a :: int) > - Timestamp b)"
    by (simp add: Before_def fun_eq_iff)
  have "bubble_outer (\<lambda>a b. Before (Timestamp a) (Timestamp b)) 0 (QSOs p)
      = sort_key (\<lambda>q. - Timestamp q) (QSOs p)"
    unfolding sw by (rule bubble_outer_is_stable_sort)
  with assms show ?thesis
    by (auto simp: GetLatestQSOs_def Let_def)
qed

lemma Split_year0_text:
  "Split_eor year0_text
     = [''<call:1>A<qso_date:1>1'', ''<call:1>B<qso_date:8>00000101<time_on:6>000000'']"
  by (simp add: year0_text_def regexp_eval)

lemma parseRecord_undated: "parseRecord cr ''<call:1>A<qso_date:1>1'' = (undated_qso, None)"
  by (simp add: parseRecord_def regexp_eval string_eval atoi_eval set_field_def zero_QSO_def
      undated_qso_def Let_def)

lemma matches_year0:
  "FindAllStringSubmatch ''<call:1>B<qso_date:8>00000101<time_on:6>000000''
     = [(''call'', ''1'', ''B''), (''qso_date'', ''8'', ''00000101''),
        (''time_on'', ''6'', ''000000'')]"
  by (simp add: regexp_eval)

lemma match_loop_year0:
  "match_loop cr [(''call'', ''1'', ''B''), (''qso_date'', ''8'', ''00000101''),
        (''time_on'', ''6'', ''000000'')] zero_QSO
     = zero_QSO\<lparr>Call := ''B'', QSODate := ''00000101'', TimeOn := ''000000''\<rparr>"
  by (simp add: string_eval atoi_eval set_field_def)

lemma parseTimestamp_year0:
  "parseTimestamp ''00000101'' ''000000'' = Inr (- 31622400000000000)"
  by (simp add: parseTimestamp_def slice_def atoi_eval date_eval)

lemma parseRecord_year0:
  "parseRecord cr ''<call:1>B<qso_date:8>00000101<time_on:6>000000'' = (year0_qso, None)"
  unfolding parseRecord_def matches_year0 match_loop_year0
  by (simp add: parseTimestamp_year0 zero_QSO_def year0_qso_def)

lemma TrimSpace_year0_chunks:
  "TrimSpace ''<call:1>A<qso_date:1>1'' = ''<call:1>A<qso_date:1>1''"
  "TrimSpace ''<call:1>B<qso_date:8>00000101<time_on:6>000000''
     = ''<call:1>B<qso_date:8>00000101<time_on:6>000000''"
  by (simp_all add: string_eval)

lemma Index_year0_text: "Index (ToUpper cr year0_text) ''<EOH>'' = - 1"
  by (simp add: year0_text_def ToUpper_def isASCII_def byte_def upper_byte_def)

lemma parseContent_year0_text:
  "parseContent cr NewADIFParser year0_text = Returns (None, \<lparr>QSOs = [undated_qso, year0_qso]\<rparr>)"
  unfolding parseContent_def Index_year0_text
  by (simp add: Split_year0_text TrimSpace_year0_chunks parseRecord_undated parseRecord_year0
      NewADIFParser_def)

text \<open>
  Claim C3, as it is stated, fails: a record with a zero timestamp is not always the
  oldest. The two records of \<open>year0_text\<close> are returned with the record without a
  timestamp first and the record of the year 0000 last.
\<close>

theorem zero_timestamp_not_last:
  "ParseFile no_case_ranges NewADIFParser (Reader year0_text None)
      = Returns (None, \<lparr>QSOs = [undated_qso, year0_qso]\<rparr>)
   \<and> GetLatestQSOs \<lparr>QSOs = [undated_qso, year0_qso]\<rparr> 2 = Returns [undated_qso, year0_qso]
   \<and> IsZero (Timestamp undated_qso) \<and> \<not> IsZero (Timestamp year0_qso)"
proof -
  have "bubble_inner (\<lambda>a b. Before (Timestamp a) (Timestamp b)) (Suc 0) 0 [undated_qso, year0_qso]
      = [undated_qso, year0_qso]"
    by (simp add: bubble_inner_step bubble_inner_stop Before_def undated_qso_def year0_qso_def
        zero_QSO_def zero_Time_def)
  then have "bubble_outer (\<lambda>a b. Before (Timestamp a) (Timestamp b)) 0 [undated_qso, year0_qso]
      = [undated_qso, year0_qso]"
    by (simp add: bubble_outer_step bubble_outer_stop)
  then show ?thesis
    by (simp add: ParseFile_def parseContent_year0_text GetLatestQSOs_def IsZero_def
        undated_qso_def year0_qso_def zero_QSO_def zero_Time_def)
qed

text \<open>
  Claim C3, amended. For \<open>n \<ge> 0\<close>, \<open>GetLatestQSOs(n)\<close> returns the first
  \<open>min(n, len(p.QSOs))\<close> records of the stable sort of the collection by timestamp, newest
  first: the sorted list has the records of the collection, its timestamps descend, and
  the records of one timestamp (the zero timestamp among them) keep their order. A zero
  timestamp sorts as the instant it is, January 1 of the year 1: no record before it in
  the sorted list is earlier than that instant, and no record after it is later.
\<close>

theorem GetLatestQSOs_stable_descending:
  assumes "0 \<le> n"
  shows "\<exists>sorted_qsos.
      GetLatestQSOs p n = Returns (take (min (nat n) (length (QSOs p))) sorted_qsos)
    \<and> sorted_qsos = sort_key (\<lambda>q. - Timestamp q) (QSOs p)
    \<and> mset sorted_qsos = mset (QSOs p)
    \<and> sorted_wrt (\<lambda>a b. Timestamp b \<le> Timestamp a) sorted_qsos
    \<and> (\<forall>t. filter (\<lambda>q. Timestamp q = t) sorted_qsos = filter (\<lambda>q. Timestamp q = t) (QSOs p))
    \<and> (\<forall>i j. i < j \<and> j < length sorted_qsos \<and> IsZero (Timestamp (sorted_qsos ! j))
          \<longrightarrow> \<not> Before (Timestamp (sorted_qsos ! i)) zero_Time)
    \<and> (\<forall>i j. i < j \<and> j < length sorted_qsos \<and> IsZero (Timestamp (sorted_qsos ! i))
          \<longrightarrow> \<not> Before zero_Time (Timestamp (sorted_qsos ! j)))"
proof -
  let ?s = "sort_key (\<lambda>q. - Timestamp q) (QSOs p)"
  have "take (nat n) ?s = take (min (nat n) (length (QSOs p))) ?s"
    by (simp add: min_def)
  then have 1: "GetLatestQSOs p n = Returns (take (min (nat n) (length (QSOs p))) ?s)"
    using GetLatestQSOs_sort_key [OF assms, of p] by simp
  have "sorted (map (\<lambda>q. - Timestamp q) ?s)"
    by simp
  then have 2: "sorted_wrt (\<lambda>a b. Timestamp b \<le> Timestamp a) ?s"
    by (simp add: sorted_map)
  have 3: "filter (\<lambda>q. Timestamp q = t) ?s = filter (\<lambda>q. Timestamp q = t) (QSOs p)" for t
  proof -
    have "(\<lambda>q. Timestamp q = t) = (\<lambda>q. - Timestamp q = - t)"
      by auto
    then show ?thesis
      using sort_key_stable [of "\<lambda>q. - Timestamp q" "- t" "QSOs p"] by simp
  qed
  have 4: "Timestamp (?s ! j) \<le> Timestamp (?s ! i)" if "i < j" "j < length ?s" for i j
    using 2 that by (simp add: sorted_wrt_iff_nth_less)
  have "\<forall>i j. i < j \<and> j < length ?s \<and> IsZero (Timestamp (?s ! j))
          \<longrightarrow> \<not> Before (Timestamp (?s ! i)) zero_Time"
    using 4 by (fastforce simp: IsZero_def Before_def zero_Time_def)
  moreover have "\<forall>i j. i < j \<and> j < length ?s \<and> IsZero (Timestamp (?s ! i))
          \<longrightarrow> \<not> Before zero_Time (Timestamp (?s ! j))"
    using 4 by (fastforce simp: IsZero_def Before_def zero_Time_def)
  ultimately show ?thesis
    using 1 2 3 by (intro exI [of _ ?s]) simp
qed

theorem GetLatestQSOs_stable_descending_witness:
  "GetLatestQSOs \<lparr>QSOs = [undated_qso, year0_qso, sample_qso]\<rparr> 2
     = Returns [sample_qso, undated_qso]
   \<and> sort_key (\<lambda>q. - Timestamp q) [undated_qso, year0_qso, sample_qso]
     = [sample_qso, undated_qso, year0_qso]"
proof -
  let ?p = "\<lparr>QSOs = [undated_qso, year0_qso, sample_qso]\<rparr>"
  have s: "sort_key (\<lambda>q. - Timestamp q) [undated_qso, year0_qso, sample_qso]
     = [sample_qso, undated_qso, year0_qso]"
    by (simp add: undated_qso_def year0_qso_def sample_qso_def zero_QSO_def zero_Time_def)
  have n: "(0::int) \<le> 2"
    by simp
  from GetLatestQSOs_stable_descending [OF n, of ?p] obtain sorted_qsos
    where a: "GetLatestQSOs ?p 2 = Returns (take (min (nat 2) (length (QSOs ?p))) sorted_qsos)"
      and b: "sorted_qsos = sort_key (\<lambda>q. - Timestamp q) (QSOs ?p)"
    by blast
  have "QSOs ?p = [undated_qso, year0_qso, sample_qso]"
    by simp
  with b s have "sorted_qsos = [sample_qso, undated_qso, year0_qso]"
    by (simp only:)
  with a s show ?thesis
    by simp
qed

section \<open>\<open>GetPaperQSLHallOfFame\<close>\<close>

lemma seen_loop_lookup:
  "seen_loop qsos seen c =
    (case seen c of
       None \<Rightarrow> spec_preferred (candidates c qsos)
     | Some e \<Rightarrow>
        if Name e \<noteq> [] then Some e
        else (case find (\<lambda>q. Name q \<noteq> []) (candidates c qsos) of
                None \<Rightarrow> Some e | Some q \<Rightarrow> Some q))"
proof (induction qsos arbitrary: seen)
  case Nil
  show ?case
    by (simp add: candidates_def spec_preferred_def split: option.splits)
next
  case (Cons qso qsos)
  show ?case
  proof (cases "QslRcvd qso = QslYes")
    case False
    then have e: "candidates c (qso # qsos) = candidates c qsos"
      by (simp add: candidates_def)
    from False show ?thesis
      unfolding e by (simp add: Cons.IH)
  next
    case yes: True
    show ?thesis
    proof (cases "Call qso = c")
      case False
      then have e: "candidates c (qso # qsos) = candidates c qsos"
        by (simp add: candidates_def)
      from False yes show ?thesis
        unfolding e by (simp add: Cons.IH split: option.splits)
    next
      case True
      with yes have cands: "candidates c (qso # qsos) = qso # candidates c qsos"
        by (simp add: candidates_def)
      show ?thesis
      proof (cases "seen c")
        case None
        with yes True show ?thesis
          unfolding cands
          by (simp add: Cons.IH spec_preferred_def split: option.splits)
      next
        case (Some e)
        with yes True show ?thesis
          unfolding cands
          by (simp add: Cons.IH split: option.splits)
      qed
    qed
  qed
qed

lemma seen_loop_empty:
  "seen_loop qsos Map.empty c = spec_preferred (candidates c qsos)"
  by (simp add: seen_loop_lookup)

lemma spec_preferred_None: "spec_preferred cands = None \<longleftrightarrow> cands = []"
  by (cases cands) (auto simp: spec_preferred_def split: option.splits)

lemma spec_preferred_Some: "spec_preferred cands = Some q \<Longrightarrow> q \<in> set cands"
  by (cases cands) (auto simp: spec_preferred_def find_Some_iff split: option.splits if_splits)

lemma dom_seen_loop:
  "dom (seen_loop qsos Map.empty) = Call ` {q \<in> set qsos. QslRcvd q = QslYes}"
proof -
  have "c \<in> dom (seen_loop qsos Map.empty) \<longleftrightarrow> candidates c qsos \<noteq> []" for c
    by (simp add: dom_def seen_loop_empty spec_preferred_None)
  moreover have "candidates c qsos \<noteq> [] \<longleftrightarrow> c \<in> Call ` {q \<in> set qsos. QslRcvd q = QslYes}" for c
    by (auto simp: candidates_def filter_empty_conv)
  ultimately show ?thesis by blast
qed

text \<open>The result does not depend on the order in which \<open>range\<close> visits the map: it has
  one record for each call sign with a received paper QSL, in the order of the call
  signs.\<close>

lemma GetPaperQSLHallOfFame_eq:
  assumes "range_order (seen_loop (QSOs p) Map.empty) keys"
  shows "GetPaperQSLHallOfFame keys p =
     map (\<lambda>c. the (spec_preferred (candidates c (QSOs p))))
       (sorted_list_of_set (Call ` {q \<in> set (QSOs p). QslRcvd q = QslYes}))"
proof -
  let ?seen = "seen_loop (QSOs p) Map.empty"
  let ?g = "\<lambda>c. the (spec_preferred (candidates c (QSOs p)))"
  from assms have d: "distinct keys" and k: "set keys = dom ?seen"
    by (simp_all add: range_order_def)
  have call: "Call (?g c) = c" if "c \<in> set keys" for c
  proof -
    from that k obtain q where "spec_preferred (candidates c (QSOs p)) = Some q"
      by (auto simp: seen_loop_empty)
    then show ?thesis
      using spec_preferred_Some [of "candidates c (QSOs p)" q] by (simp add: candidates_def)
  qed
  have res: "GetPaperQSLHallOfFame keys p = sort_key Call (map ?g keys)"
    by (simp add: GetPaperQSLHallOfFame_def Let_def seen_loop_empty bubble_outer_is_stable_sort)
  have "sort_key Call (map ?g keys) = map ?g (sort keys)"
  proof (rule sort_key_inj_key_eq)
    show "mset (map ?g keys) = mset (map ?g (sort keys))"
      by simp
    show "inj_on Call (set (map ?g keys))"
      using call by (auto simp: inj_on_def)
    have "map (\<lambda>c. Call (?g c)) (sort keys) = sort keys"
      by (rule map_idI) (use call in simp)
    then have "map Call (map ?g (sort keys)) = sort keys"
      by (simp add: comp_def)
    then show "sorted (map Call (map ?g (sort keys)))"
      by simp
  qed
  moreover have "sort keys = sorted_list_of_set (set keys)"
    using d by (simp add: sorted_list_of_set_sort_remdups distinct_remdups_id)
  ultimately show ?thesis
    using res k by (simp add: dom_seen_loop)
qed

text \<open>
  Claim C4. \<open>GetPaperQSLHallOfFame\<close> returns, for each call sign that has a record with
  \<open>QslRcvd = "Y"\<close>, exactly one record: among the records of the call sign with
  \<open>QslRcvd = "Y"\<close> the first one with a name, or the first one when none has a name. The
  result is in the strict order of the call signs, and every record of it is a record of
  the collection with \<open>QslRcvd = "Y"\<close>. This holds for every order in which \<open>range\<close>
  visits the map.
\<close>

theorem GetPaperQSLHallOfFame_one_per_call:
  assumes "range_order (seen_loop (QSOs p) Map.empty) keys"
  shows "sorted_wrt (<) (map Call (GetPaperQSLHallOfFame keys p))
    \<and> set (map Call (GetPaperQSLHallOfFame keys p))
        = Call ` {q \<in> set (QSOs p). QslRcvd q = QslYes}
    \<and> (\<forall>r \<in> set (GetPaperQSLHallOfFame keys p).
          QslRcvd r = QslYes \<and> r \<in> set (QSOs p)
          \<and> spec_preferred (candidates (Call r) (QSOs p)) = Some r)"
proof -
  let ?calls = "Call ` {q \<in> set (QSOs p). QslRcvd q = QslYes}"
  let ?g = "\<lambda>c. the (spec_preferred (candidates c (QSOs p)))"
  have fin: "finite ?calls"
    by simp
  have g: "spec_preferred (candidates c (QSOs p)) = Some (?g c) \<and> Call (?g c) = c
      \<and> QslRcvd (?g c) = QslYes \<and> ?g c \<in> set (QSOs p)" if "c \<in> ?calls" for c
  proof -
    from that have "candidates c (QSOs p) \<noteq> []"
      by (auto simp: candidates_def filter_empty_conv)
    then obtain q where q: "spec_preferred (candidates c (QSOs p)) = Some q"
      using spec_preferred_None [of "candidates c (QSOs p)"] by (cases "spec_preferred (candidates c (QSOs p))") auto
    from spec_preferred_Some [OF q] q show ?thesis
      by (simp add: candidates_def)
  qed
  have "map (\<lambda>c. Call (?g c)) (sorted_list_of_set ?calls) = sorted_list_of_set ?calls"
    by (rule map_idI) (use g fin in simp)
  then have calls: "map Call (map ?g (sorted_list_of_set ?calls)) = sorted_list_of_set ?calls"
    by (simp add: comp_def)
  have "sorted_wrt (<) (sorted_list_of_set ?calls)"
    using fin by (simp add: strict_sorted_iff)
  with calls have 1: "sorted_wrt (<) (map Call (map ?g (sorted_list_of_set ?calls)))"
    by (simp only:)
  have 2: "set (map Call (map ?g (sorted_list_of_set ?calls))) = ?calls"
    using fin by (simp only: calls) simp
  have 3: "\<forall>r \<in> set (map ?g (sorted_list_of_set ?calls)).
          QslRcvd r = QslYes \<and> r \<in> set (QSOs p)
          \<and> spec_preferred (candidates (Call r) (QSOs p)) = Some r"
    using g fin by auto
  from 1 2 3 show ?thesis
    unfolding GetPaperQSLHallOfFame_eq [OF assms] by blast
qed

lemmas hall_eval = hall_parser_def m0xyz_plain_def m0xyz_alice_def a1a_qso_def b2b_qso_def
  zero_QSO_def QslYes_def

lemma seen_hall_parser:
  "seen_loop (QSOs hall_parser) Map.empty = [''M0XYZ'' \<mapsto> m0xyz_alice, ''A1A'' \<mapsto> a1a_qso]"
  by (simp add: hall_eval)

lemma GetPaperQSLHallOfFame_hall_parser:
  "GetPaperQSLHallOfFame [''M0XYZ'', ''A1A''] hall_parser = [a1a_qso, m0xyz_alice]"
proof -
  have c: "Call m0xyz_alice > Call a1a_qso"
    by (simp add: hall_eval)
  then have "bubble_inner (\<lambda>a b. Call a > Call b) (Suc 0) 0 [m0xyz_alice, a1a_qso]
      = [a1a_qso, m0xyz_alice]"
    by (simp add: bubble_inner_step bubble_inner_stop)
  then have "bubble_outer (\<lambda>a b. Call a > Call b) 0 [m0xyz_alice, a1a_qso]
      = [a1a_qso, m0xyz_alice]"
    by (simp add: bubble_outer_step bubble_outer_stop)
  then show ?thesis
    by (simp add: GetPaperQSLHallOfFame_def seen_hall_parser)
qed

theorem GetPaperQSLHallOfFame_one_per_call_witness:
  "range_order (seen_loop (QSOs hall_parser) Map.empty) [''M0XYZ'', ''A1A'']
   \<and> GetPaperQSLHallOfFame [''M0XYZ'', ''A1A''] hall_parser = [a1a_qso, m0xyz_alice]
   \<and> sorted_wrt (<) (map Call [a1a_qso, m0xyz_alice])
   \<and> set (map Call [a1a_qso, m0xyz_alice])
        = Call ` {q \<in> set (QSOs hall_parser). QslRcvd q = QslYes}
   \<and> spec_preferred (candidates (Call m0xyz_alice) (QSOs hall_parser)) = Some m0xyz_alice
   \<and> Name m0xyz_alice = ''Alice'' \<and> Name m0xyz_plain = []"
proof -
  have r: "range_order (seen_loop (QSOs hall_parser) Map.empty) [''M0XYZ'', ''A1A'']"
    unfolding seen_hall_parser by (auto simp: range_order_def)
  have n: "Name m0xyz_alice = ''Alice''" "Name m0xyz_plain = []"
    by (simp_all add: hall_eval)
  from GetPaperQSLHallOfFame_one_per_call [OF r] r n show ?thesis
    unfolding GetPaperQSLHallOfFame_hall_parser by simp
qed

section \<open>\<open>SearchQSO\<close>\<close>

lemma search_loop_Cons:
  "search_loop cs t tol (q # qsos) (b, bd, f) =
     search_loop cs t tol qsos
       (if matches_search cs t tol q \<and> (\<not> f \<or> timeDiff_of t q < bd)
        then (q, timeDiff_of t q, True) else (b, bd, f))"
  by (cases "Sub (Timestamp q) t < 0") (auto simp: matches_search_def timeDiff_of_def Let_def)

lemma search_loop_arg_min:
  "search_loop cs t tol qsos (b, bd, f) =
    (case filter (matches_search cs t tol) qsos of
       [] \<Rightarrow> (b, bd, f)
     | e # es \<Rightarrow>
        (let m = arg_min_list (timeDiff_of t) (e # es)
         in if f \<and> bd \<le> timeDiff_of t m then (b, bd, f) else (m, timeDiff_of t m, True)))"
proof (induction qsos arbitrary: b bd f)
  case Nil
  show ?case by simp
next
  case (Cons q qsos)
  let ?d = "timeDiff_of t"
  let ?es = "filter (matches_search cs t tol) qsos"
  show ?case
  proof (cases "matches_search cs t tol q")
    case False
    then show ?thesis
      by (simp only: search_loop_Cons Cons.IH filter.simps simp_thms if_False)
  next
    case True
    then have el: "filter (matches_search cs t tol) (q # qsos) = q # ?es"
      by simp
    show ?thesis
    proof (cases "\<not> f \<or> ?d q < bd")
      case take: True
      with True have "search_loop cs t tol (q # qsos) (b, bd, f)
          = search_loop cs t tol qsos (q, ?d q, True)"
        by (simp only: search_loop_Cons simp_thms if_True)
      also have "\<dots> = (case ?es of [] \<Rightarrow> (q, ?d q, True)
          | e # es \<Rightarrow> (let m = arg_min_list ?d (e # es)
               in if ?d q \<le> ?d m then (q, ?d q, True) else (m, ?d m, True)))"
        by (simp add: Cons.IH split: list.splits)
      also have "\<dots> = (let m = arg_min_list ?d (q # ?es)
         in if f \<and> bd \<le> ?d m then (b, bd, f) else (m, ?d m, True))"
        using take by (cases ?es) (auto simp: Let_def)
      finally show ?thesis
        unfolding el by simp
    next
      case keep: False
      with True have "search_loop cs t tol (q # qsos) (b, bd, f)
          = search_loop cs t tol qsos (b, bd, f)"
        by (simp only: search_loop_Cons simp_thms if_False)
      also have "\<dots> = (case ?es of [] \<Rightarrow> (b, bd, f)
          | e # es \<Rightarrow> (let m = arg_min_list ?d (e # es)
               in if f \<and> bd \<le> ?d m then (b, bd, f) else (m, ?d m, True)))"
        by (rule Cons.IH)
      also have "\<dots> = (let m = arg_min_list ?d (q # ?es)
         in if f \<and> bd \<le> ?d m then (b, bd, f) else (m, ?d m, True))"
        using keep by (cases ?es) (auto simp: Let_def)
      finally show ?thesis
        unfolding el by simp
    qed
  qed
qed

declare search_loop.simps(2) [simp del]

lemma SearchQSO_arg_min:
  "SearchQSO cr p callSign searchTime toleranceMinutes =
    (case filter (matches_search (ToUpper cr (TrimSpace callSign)) searchTime
                    (wrap64 (toleranceMinutes * Minute))) (QSOs p) of
       [] \<Rightarrow> []
     | e # es \<Rightarrow> [arg_min_list (timeDiff_of searchTime) (e # es)])"
  by (simp add: SearchQSO_def search_loop_arg_min Let_def split: list.splits)

lemma wrap64_id: "- (2 ^ 63) \<le> x \<Longrightarrow> x < 2 ^ 63 \<Longrightarrow> wrap64 x = x"
  by (simp add: wrap64_def)

lemma timeDiff_of_abs:
  assumes "\<bar>Timestamp qso - searchTime\<bar> \<le> maxDuration"
  shows "timeDiff_of searchTime qso = \<bar>Timestamp qso - searchTime\<bar>"
proof -
  from assms have s: "Sub (Timestamp qso) searchTime = Timestamp qso - searchTime"
    by (auto simp: Sub_def minDuration_def maxDuration_def)
  show ?thesis
  proof (cases "Timestamp qso - searchTime < 0")
    case True
    with assms have "wrap64 (- (Timestamp qso - searchTime)) = - (Timestamp qso - searchTime)"
      by (intro wrap64_id) (auto simp: maxDuration_def)
    with True s show ?thesis
      by (simp add: timeDiff_of_def)
  next
    case False
    with s show ?thesis
      by (simp add: timeDiff_of_def)
  qed
qed

lemma arg_min_list_cong:
  "xs \<noteq> [] \<Longrightarrow> (\<And>x. x \<in> set xs \<Longrightarrow> f x = g x) \<Longrightarrow> arg_min_list f xs = arg_min_list g xs"
proof (induction f xs rule: arg_min_list.induct)
  case (1 f x)
  show ?case by simp
next
  case (2 f x y zs)
  have "arg_min_list f (y # zs) = arg_min_list g (y # zs)"
    using 2 by simp
  moreover have "arg_min_list g (y # zs) \<in> set (y # zs)"
    by (rule arg_min_list_in) simp
  ultimately show ?case
    using "2.prems"(2) by (simp add: Let_def)
next
  case (3 f)
  then show ?case by simp
qed

text \<open>
  Where no difference overflows, \<open>SearchQSO\<close> is what claim C2 says: among the records
  of the trimmed, upper-cased call sign with a timestamp that is not zero and at most the
  tolerance away from the search time, it returns the first one of those nearest to the
  search time, and nothing when there is none.
\<close>

lemma SearchQSO_in_range:
  assumes tol: "0 \<le> toleranceMinutes" "toleranceMinutes * Minute \<le> maxDuration"
    and near: "\<And>qso. qso \<in> set (QSOs p) \<Longrightarrow> \<bar>Timestamp qso - searchTime\<bar> \<le> maxDuration"
  shows "SearchQSO cr p callSign searchTime toleranceMinutes =
    (case filter (\<lambda>qso. Call qso = ToUpper cr (TrimSpace callSign) \<and> \<not> IsZero (Timestamp qso)
                     \<and> \<bar>Timestamp qso - searchTime\<bar> \<le> toleranceMinutes * Minute) (QSOs p) of
       [] \<Rightarrow> []
     | e # es \<Rightarrow> [arg_min_list (\<lambda>qso. \<bar>Timestamp qso - searchTime\<bar>) (e # es)])"
proof -
  let ?cs = "ToUpper cr (TrimSpace callSign)"
  let ?P = "\<lambda>qso. Call qso = ?cs \<and> \<not> IsZero (Timestamp qso)
                     \<and> \<bar>Timestamp qso - searchTime\<bar> \<le> toleranceMinutes * Minute"
  from tol have w: "wrap64 (toleranceMinutes * Minute) = toleranceMinutes * Minute"
    by (intro wrap64_id) (auto simp: maxDuration_def Minute_def)
  have f: "filter (matches_search ?cs searchTime (wrap64 (toleranceMinutes * Minute))) (QSOs p)
      = filter ?P (QSOs p)"
    unfolding w by (rule filter_cong) (auto simp: matches_search_def timeDiff_of_abs near)
  show ?thesis
  proof (cases "filter ?P (QSOs p)")
    case Nil
    then show ?thesis
      by (simp add: SearchQSO_arg_min f)
  next
    case (Cons e es)
    have "set (e # es) \<subseteq> set (QSOs p)"
      unfolding Cons [symmetric] by auto
    then have "arg_min_list (timeDiff_of searchTime) (e # es)
        = arg_min_list (\<lambda>qso. \<bar>Timestamp qso - searchTime\<bar>) (e # es)"
      by (intro arg_min_list_cong) (auto simp: timeDiff_of_abs near)
    with Cons show ?thesis
      by (simp add: SearchQSO_arg_min f)
  qed
qed

text \<open>The examples of the specification: of two records of W1AW three minutes apart the
  nearer one is returned, a gap of exactly the tolerance matches, and a gap of one minute
  more does not.\<close>

lemma SearchQSO_examples:
  "SearchQSO no_case_ranges
     \<lparr>QSOs = [sample_qso, sample_qso\<lparr>Timestamp := Timestamp sample_qso + 3 * Minute\<rparr>]\<rparr>
     '' w1aw '' (Timestamp sample_qso + Minute) 10 = [sample_qso]"
  "SearchQSO no_case_ranges \<lparr>QSOs = [sample_qso]\<rparr> ''W1AW''
     (Timestamp sample_qso + 10 * Minute) 10 = [sample_qso]"
  "SearchQSO no_case_ranges \<lparr>QSOs = [sample_qso]\<rparr> ''W1AW''
     (Timestamp sample_qso + 11 * Minute) 10 = []"
proof -
  have cs: "ToUpper no_case_ranges (TrimSpace '' w1aw '') = ''W1AW''"
    "ToUpper no_case_ranges (TrimSpace ''W1AW'') = ''W1AW''"
    by (simp_all add: string_eval)
  note ev = SearchQSO_def search_loop_Cons matches_search_def timeDiff_of_def Sub_def
    wrap64_def minDuration_def maxDuration_def Minute_def IsZero_def sample_qso_def zero_QSO_def
  show "SearchQSO no_case_ranges
     \<lparr>QSOs = [sample_qso, sample_qso\<lparr>Timestamp := Timestamp sample_qso + 3 * Minute\<rparr>]\<rparr>
     '' w1aw '' (Timestamp sample_qso + Minute) 10 = [sample_qso]"
    unfolding SearchQSO_def cs by (simp add: ev)
  show "SearchQSO no_case_ranges \<lparr>QSOs = [sample_qso]\<rparr> ''W1AW''
     (Timestamp sample_qso + 10 * Minute) 10 = [sample_qso]"
    unfolding SearchQSO_def cs by (simp add: ev)
  show "SearchQSO no_case_ranges \<lparr>QSOs = [sample_qso]\<rparr> ''W1AW''
     (Timestamp sample_qso + 11 * Minute) 10 = []"
    unfolding SearchQSO_def cs by (simp add: ev)
qed

text \<open>
  Claim C2 fails where the difference between the timestamp and the search time does not
  fit a \<open>Duration\<close> (about 292 years). For a search time that far after the record,
  \<open>Sub\<close> returns the minimum duration, its negation is the minimum duration again, and the
  negative \<open>timeDiff\<close> is below every tolerance: the record of \<open>sample_text\<close>, of January
  15, 2024, is returned for the search time \<open>time.Unix(20000000000, 0)\<close> in the year 2603
  with a tolerance of 10 minutes.
\<close>

theorem SearchQSO_returns_record_centuries_away:
  "ParseFile no_case_ranges NewADIFParser (Reader sample_text None)
      = Returns (None, \<lparr>QSOs = [sample_qso]\<rparr>)
   \<and> SearchQSO no_case_ranges \<lparr>QSOs = [sample_qso]\<rparr> ''W1AW'' (Unix 20000000000) 10
      = [sample_qso]
   \<and> \<bar>Timestamp sample_qso - Unix 20000000000\<bar> > 10 * Minute"
proof -
  have cs: "ToUpper no_case_ranges (TrimSpace ''W1AW'') = ''W1AW''"
    by (simp add: string_eval)
  have c: "Call sample_qso = ''W1AW''" and t: "Timestamp sample_qso = 63840925800000000000"
    by (simp_all add: sample_qso_def)
  have d: "timeDiff_of (Unix 20000000000) sample_qso = minDuration"
    by (simp add: timeDiff_of_def t Unix_def Sub_def wrap64_def minDuration_def maxDuration_def)
  have "matches_search ''W1AW'' (Unix 20000000000) (wrap64 (10 * Minute)) sample_qso"
    by (simp add: matches_search_def c d) (simp add: t IsZero_def wrap64_def Minute_def minDuration_def)
  then have "SearchQSO no_case_ranges \<lparr>QSOs = [sample_qso]\<rparr> ''W1AW'' (Unix 20000000000) 10
      = [sample_qso]"
    by (simp add: SearchQSO_arg_min cs)
  moreover have "\<bar>Timestamp sample_qso - Unix 20000000000\<bar> > 10 * Minute"
    by (simp add: t Unix_def Minute_def)
  ultimately show ?thesis
    by (simp add: ParseFile_sample_text NewADIFParser_def)
qed

end
